theory Spec2Isabelle
  imports Main "HOL-Library.Sublist"
begin

unbundle bit_operations_syntax

section \<open>pyFind: a shallow embedding of \<open>pyFind.py\<close>\<close>

text \<open>
  Python strings are modelled by \<^typ>\<open>string\<close>, one \<^typ>\<open>char\<close> per character of
  the Python string. The file system, the process table and the two library calls whose
  result depends on the user's input (\<open>int\<close> and \<open>re.compile\<close>) are parameters of the
  model, collected in the record \<open>env\<close> below; the file system is a snapshot that does not
  change while the program runs. Everything the program writes, spawns or asks of the
  matcher is recorded, in order, as a list of events.
\<close>

subsection \<open>Characters used by the program\<close>

definition bslash :: char where "bslash = CHR 0x5C"
definition nl :: char where "nl = CHR 0x0A"
definition tab :: char where "tab = CHR 0x09"
definition esc :: char where "esc = CHR 0x1B"

subsection \<open>The regular expressions the program itself writes down\<close>

text \<open>
  The patterns that occur literally in \<open>pyFind.py\<close> are sequences of anchors and of
  character classes that are taken once, greedily zero or more times (\<open>*\<close>) or greedily
  one or more times (\<open>+\<close>). Capture groups change neither whether such a pattern matches
  nor what \<open>re.sub\<close> replaces (no replacement refers to a group), so they are left out.
  \<open>rx_at\<close> is the backtracking matcher of Python's \<open>re\<close> at one position: it returns the
  rest of the subject after the first match in priority order. The flag tells whether
  the position is the start of the subject (no pattern is compiled with MULTILINE).
\<close>

datatype cls = In "char list" | NotIn "char list"

datatype item = Bol | Eol | One cls | Star cls | Plus cls

fun cls_ok :: "cls \<Rightarrow> char \<Rightarrow> bool" where
  "cls_ok (In cs) c = (c \<in> set cs)"
| "cls_ok (NotIn cs) c = (c \<notin> set cs)"

fun rx_at :: "item list \<Rightarrow> bool \<Rightarrow> string \<Rightarrow> string option" where
  "rx_at [] b s = Some s"
| "rx_at (Bol # r) b s = (if b then rx_at r b s else None)"
| "rx_at (Eol # r) b s = (if s = [] \<or> s = [nl] then rx_at r b s else None)"
| "rx_at (One c # r) b [] = None"
| "rx_at (One c # r) b (x # xs) = (if cls_ok c x then rx_at r False xs else None)"
| "rx_at (Star c # r) b [] = rx_at r b []"
| "rx_at (Star c # r) b (x # xs) =
     (if cls_ok c x
      then (case rx_at (Star c # r) False xs of
              Some t \<Rightarrow> Some t
            | None \<Rightarrow> rx_at r b (x # xs))
      else rx_at r b (x # xs))"
| "rx_at (Plus c # r) b [] = None"
| "rx_at (Plus c # r) b (x # xs) =
     (if cls_ok c x then rx_at (Star c # r) False xs else None)"

definition re_match :: "item list \<Rightarrow> string \<Rightarrow> bool" where
  \<comment> \<open>\<open>re.match(p, s) != None\<close>, also the truth value of \<open>re.match(p, s)\<close>\<close>
  "re_match p s = (rx_at p True s \<noteq> None)"

fun rx_search :: "item list \<Rightarrow> bool \<Rightarrow> string \<Rightarrow> bool" where
  "rx_search p b [] = (rx_at p b [] \<noteq> None)"
| "rx_search p b (x # xs) = (rx_at p b (x # xs) \<noteq> None \<or> rx_search p False xs)"

definition re_search :: "item list \<Rightarrow> string \<Rightarrow> bool" where
  \<comment> \<open>the truth value of \<open>re.search(p, s)\<close>\<close>
  "re_search p s = rx_search p True s"

text \<open>
  \<open>re.sub(p, repl, s)\<close> for a replacement that is inserted as it stands: \<open>'.*'\<close> has no
  backslash, and in \<open>'^\.\*$'\<close> the backslashes stand before characters that are not
  letters or digits, which the replacement template leaves alone. Scanning goes from left
  to right; after a match it continues behind the match. An empty match inserts the
  replacement and copies one character; the two patterns the program substitutes can
  never match the empty string.
\<close>

function rx_sub :: "item list \<Rightarrow> string \<Rightarrow> bool \<Rightarrow> string \<Rightarrow> string" where
  "rx_sub p repl b s =
     (case rx_at p b s of
        Some t \<Rightarrow>
          (if length t < length s then repl @ rx_sub p repl False t
           else (case s of [] \<Rightarrow> repl | x # xs \<Rightarrow> repl @ x # rx_sub p repl False xs))
      | None \<Rightarrow> (case s of [] \<Rightarrow> [] | x # xs \<Rightarrow> x # rx_sub p repl False xs))"
  by pat_completeness auto
termination
  by (relation "measure (\<lambda>(p, repl, b, s). length s)") auto

definition re_sub :: "item list \<Rightarrow> string \<Rightarrow> string \<Rightarrow> string" where
  "re_sub p repl s = rx_sub p repl True s"

subsection \<open>Constants\<close>

definition SUB_KEY :: string where "SUB_KEY = ''{}''"
definition POSIX_BASED_OS :: string where "POSIX_BASED_OS = ''posix''"
definition WINDOWS_NT :: string where "WINDOWS_NT = ''nt''"
definition RED :: string where "RED = ''RED''"
definition GREEN :: string where "GREEN = ''GREEN''"
definition YELLOW :: string where "YELLOW = ''YELLOW''"
definition WHITE :: string where "WHITE = ''WHITE''"
definition HIGHLIGHT :: string where "HIGHLIGHT = [esc, CHR ''['']"

definition lit :: "string \<Rightarrow> item list" where
  \<comment> \<open>a pattern made of ordinary characters only\<close>
  "lit s = map (\<lambda>c. One (In [c])) s"

subsection \<open>The pattern sanitizer\<close>

definition rx_only_star :: "item list" where
  \<comment> \<open>\<open>'^\*$'\<close>\<close>
  "rx_only_star = [Bol, One (In ''*''), Eol]"

definition rx_lead_star :: "item list" where
  \<comment> \<open>\<open>'[^\.]*(\*+)'\<close>\<close>
  "rx_lead_star = [Star (NotIn ''.''), Plus (In ''*'')]"

definition rx_only_dot :: "item list" where
  \<comment> \<open>\<open>'^\.$'\<close>\<close>
  "rx_only_dot = [Bol, One (In ''.''), Eol]"

definition rx_lead_dot :: "item list" where
  \<comment> \<open>\<open>'([^\\\]\.+)[^\*]*'\<close>: in the Python literal \<open>\\\<close> is one backslash and \<open>\]\<close>
      stays as it is, so the class is "any character but a backslash"\<close>
  "rx_lead_dot = [One (NotIn [bslash]), Plus (In ''.''), Star (NotIn ''*'')]"

definition rx_canonical :: "item list" where
  \<comment> \<open>\<open>'^\.\*$'\<close>\<close>
  "rx_canonical = [Bol, One (In ''.''), One (In ''*''), Eol]"

definition rx_fix_star :: "item list" where
  \<comment> \<open>\<open>r'([\**^\.]\*+)'\<close>: the class holds \<open>*\<close>, \<open>^\<close> and \<open>.\<close>\<close>
  "rx_fix_star = [One (In ''**^.''), Plus (In ''*'')]"

definition rx_fix_dot :: "item list" where
  \<comment> \<open>\<open>r'([\.*^\*]\.+)'\<close>: the class holds \<open>.\<close>, \<open>*\<close> and \<open>^\<close>\<close>
  "rx_fix_dot = [One (In ''.*^*''), Plus (In ''.'')]"

definition match_all :: string where
  \<comment> \<open>\<open>'^.*$'\<close>\<close>
  "match_all = ''^.*$''"

definition dot_replacement :: string where
  \<comment> \<open>\<open>'^\.\*$'\<close> as a replacement: the six characters \<open>^ \ . \ * $\<close>\<close>
  "dot_replacement = [CHR ''^'', bslash, CHR ''.'', bslash, CHR ''*'', CHR ''$'']"

definition unsafeAsteriks :: "string \<Rightarrow> bool" where
  "unsafeAsteriks txt = (re_match rx_only_star txt \<or> re_match rx_lead_star txt)"

definition unsafeDots :: "string \<Rightarrow> bool" where
  "unsafeDots txt = (re_match rx_only_dot txt \<or> re_match rx_lead_dot txt)"

definition sanitize :: "string \<Rightarrow> string" where
  \<comment> \<open>lines 242 to 249 of \<open>main\<close>\<close>
  "sanitize regex0 =
     (let regex1 = (if re_search rx_canonical regex0 then match_all else regex0);
          regex2 = (if unsafeAsteriks regex1 then re_sub rx_fix_star ''.*'' regex1 else regex1);
          regex3 = (if unsafeDots regex2 then re_sub rx_fix_dot dot_replacement regex2 else regex2)
      in regex3)"

subsection \<open>The environment and what the program does to it\<close>

datatype exn = TypeError | OSError | IndexError | ReError

text \<open>
  One element of the list \<open>regexCompile.findall(text)\<close> returns: a string (pattern with
  at most one group) or a tuple of strings (pattern with several groups).
\<close>

datatype found = Str string | Tup "string list"

type_synonym regex = "string \<Rightarrow> found list"

datatype event =
    Stdout string
  | Stderr string
  | Evaluated string
  | Listed string
  | Spawned "string list"
  | Shell string

text \<open>
  \<open>Evaluated t\<close>: \<open>matchPatterns\<close> was called on \<open>t\<close>; \<open>Listed p\<close>: \<open>os.listdir(p)\<close> was
  called; \<open>Spawned argv\<close>: \<open>Popen(argv, ...)\<close> started a child; \<open>Shell c\<close>: \<open>os.popen(c)\<close> ran
  \<open>c\<close> through the shell.
\<close>

record env =
  os_name :: string
  path_exists :: "string \<Rightarrow> bool"
  read_access :: "string \<Rightarrow> bool"
  is_dir :: "string \<Rightarrow> bool"
  listdir :: "string \<Rightarrow> string list"
  path_join :: "string \<Rightarrow> string \<Rightarrow> string"
  popen_raises :: "string list \<Rightarrow> exn option"
  shell_output :: "string \<Rightarrow> string"
  encodable :: "string \<Rightarrow> bool"
  encode_error :: "string \<Rightarrow> string"
  py_int :: "string \<Rightarrow> int option"
  re_compile :: "string \<Rightarrow> int \<Rightarrow> exn + regex"

text \<open>
  \<open>path_exists\<close>, \<open>read_access\<close>, \<open>is_dir\<close>, \<open>listdir\<close> and \<open>path_join\<close> are \<open>os.path.exists\<close>,
  \<open>os.access(_, os.R_OK)\<close>, \<open>S_ISDIR(os.stat(_).st_mode)\<close>, \<open>os.listdir\<close> and \<open>os.path.join\<close>;
  \<open>popen_raises argv\<close> is the exception \<open>Popen(argv, ...)\<close> raises, if any; \<open>shell_output c\<close>
  is \<open>os.popen(c).read()\<close>; \<open>encodable s\<close> says that \<open>sys.stdout.write(s)\<close> does not raise
  UnicodeEncodeError and \<open>encode_error s\<close> is the text of that error; \<open>py_int\<close> is \<open>int\<close> on
  a string (\<open>None\<close> for ValueError) and \<open>re_compile\<close> is \<open>re.compile\<close>.
\<close>

definition posix_join :: "string \<Rightarrow> string \<Rightarrow> string" where
  \<comment> \<open>\<open>posixpath.join\<close> of two components\<close>
  "posix_join a b =
     (if b \<noteq> [] \<and> hd b = CHR ''/'' then b
      else if a = [] \<or> last a = CHR ''/'' then a @ b
      else a @ ''/'' @ b)"

definition SUPPORTS_TERMINAL_COLORING :: "env \<Rightarrow> bool" where
  "SUPPORTS_TERMINAL_COLORING e = re_match (lit POSIX_BASED_OS) (os_name e)"

subsection \<open>Printing\<close>

text \<open>
  Every call of \<open>handlePrint\<close> in the program passes a string, so only the branches of a
  string argument are modelled: nothing is printed for the empty string, and a string
  that standard output cannot encode is reported on standard error.
\<close>

definition handlePrint :: "env \<Rightarrow> string \<Rightarrow> event list" where
  "handlePrint e queriedContent =
     (if queriedContent = [] then []
      else if encodable e (queriedContent @ [nl]) then [Stdout (queriedContent @ [nl])]
      else [Stderr (''UnicodeEncodeError encode while trying to print'' @ [nl]),
            Stderr (encode_error e (queriedContent @ [nl]))])"

definition digit :: "nat \<Rightarrow> char" where
  "digit d = char_of (48 + d)"

fun dec :: "nat \<Rightarrow> string" where
  "dec n = (if n < 10 then [digit n] else dec (n div 10) @ [digit (n mod 10)])"

definition POSIX_COLORS :: "(string \<times> nat) list" where
  "POSIX_COLORS = [(WHITE, 0), (RED, 31), (GREEN, 32), (YELLOW, 33)]"

definition colorPatterns :: "string \<Rightarrow> string \<Rightarrow> string" where
  \<comment> \<open>the format \<open>2<\<close> has no width, so the colour is printed as it is; a key that is
      not in the table gives the string \<open>GREEN\<close>\<close>
  "colorPatterns colorKey text =
     HIGHLIGHT @ (case map_of POSIX_COLORS colorKey of Some n \<Rightarrow> dec n | None \<Rightarrow> GREEN)
       @ ''m'' @ text @ HIGHLIGHT @ (case map_of POSIX_COLORS WHITE of Some n \<Rightarrow> dec n | None \<Rightarrow> [])
       @ ''m''"

subsection \<open>String methods\<close>

function replace_scan :: "string \<Rightarrow> string \<Rightarrow> string \<Rightarrow> string" where
  "replace_scan old new [] = []"
| "replace_scan old new (c # cs) =
     (if old \<noteq> [] \<and> prefix old (c # cs)
      then new @ replace_scan old new (drop (length old) (c # cs))
      else c # replace_scan old new cs)"
  by pat_completeness auto
termination
  by (relation "measure (\<lambda>(old, new, s). length s)") (auto simp: neq_Nil_conv)

definition str_replace :: "string \<Rightarrow> string \<Rightarrow> string \<Rightarrow> string" where
  \<comment> \<open>\<open>s.replace(old, new)\<close>; an empty \<open>old\<close> matches before every character and at the end\<close>
  "str_replace old new s =
     (if old = [] then new @ concat (map (\<lambda>c. c # new) s) else replace_scan old new s)"

fun split_on :: "char \<Rightarrow> string \<Rightarrow> string list" where
  \<comment> \<open>\<open>s.split(sep)\<close> for a separator of one character\<close>
  "split_on sep [] = [[]]"
| "split_on sep (c # cs) =
     (if c = sep then [] # split_on sep cs
      else (case split_on sep cs of w # ws \<Rightarrow> (c # w) # ws | [] \<Rightarrow> [[c]]))"

definition strip :: "char \<Rightarrow> string \<Rightarrow> string" where
  \<comment> \<open>\<open>s.strip(c)\<close> for a single character: removed at both ends\<close>
  "strip c s = rev (dropWhile (\<lambda>x. x = c) (rev (dropWhile (\<lambda>x. x = c) s)))"

fun join_sp :: "found list \<Rightarrow> string option" where
  \<comment> \<open>\<open>' '.join(regMatches)\<close>; \<open>None\<close> is the TypeError raised on a tuple\<close>
  "join_sp [] = Some []"
| "join_sp (Tup g # r) = None"
| "join_sp [Str a] = Some a"
| "join_sp (Str a # r) = (case join_sp r of None \<Rightarrow> None | Some t \<Rightarrow> Some (a @ '' '' @ t))"

fun highlight :: "string \<Rightarrow> found list \<Rightarrow> string \<Rightarrow> string option" where
  \<comment> \<open>the loop \<open>text = text.replace(item, colorPatterns(colorKey, item))\<close>; \<open>None\<close> is the
      TypeError raised by \<open>replace\<close> on a tuple\<close>
  "highlight colorKey [] text = Some text"
| "highlight colorKey (Str item # r) text =
     highlight colorKey r (str_replace item (colorPatterns colorKey item) text)"
| "highlight colorKey (Tup g # r) text = None"

subsection \<open>Matcher\<close>

definition matchPatterns ::
  "env \<Rightarrow> regex \<Rightarrow> string \<Rightarrow> bool \<Rightarrow> bool \<Rightarrow> string \<Rightarrow> event list \<times> (exn + bool)" where
  "matchPatterns e regexCompile text verbosity onlyPatternsPrinted colorKey =
     (let regMatches = regexCompile text in
      if regMatches = [] then ([Evaluated text], Inr False)
      else if onlyPatternsPrinted then
        (case join_sp regMatches of
           None \<Rightarrow> ([Evaluated text], Inl TypeError)
         | Some joinedPatterns \<Rightarrow>
             (if SUPPORTS_TERMINAL_COLORING e
              then (Evaluated text # handlePrint e (colorPatterns colorKey joinedPatterns), Inr True)
              else (Evaluated text # handlePrint e joinedPatterns, Inr True)))
      else if verbosity then
        (if SUPPORTS_TERMINAL_COLORING e
         then (case highlight colorKey regMatches text of
                 None \<Rightarrow> ([Evaluated text], Inl TypeError)
               | Some text' \<Rightarrow> (Evaluated text # handlePrint e text', Inr True))
         else (Evaluated text # handlePrint e text, Inr True))
      else ([Evaluated text], Inr True))"

subsection \<open>Action dispatcher\<close>

definition cmdList_of :: "string \<Rightarrow> string list" where
  \<comment> \<open>\<open>list(filter(lambda item: item, cmdText.split(" ")))\<close>\<close>
  "cmdList_of cmdText = filter (\<lambda>item. item \<noteq> []) (split_on (CHR '' '') cmdText)"

definition handleFunctionExecution :: "env \<Rightarrow> string \<Rightarrow> string \<Rightarrow> event list \<times> exn option" where
  "handleFunctionExecution e action subject =
     (let cmdText = str_replace SUB_KEY subject action in
      if re_search (lit WINDOWS_NT) (os_name e)
      then (Shell cmdText # handlePrint e (shell_output e cmdText), None)
      else (let cmdList = cmdList_of cmdText in
            case popen_raises e cmdList of
              Some x \<Rightarrow> ([], Some x)
            | None \<Rightarrow> ([Spawned cmdList], None)))"

subsection \<open>Tree traverser\<close>

text \<open>
  \<open>regexCompile\<close> is \<open>None\<close> for an object without a \<open>match\<close> attribute (the default
  argument \<open>None\<close>). An exception raised in the matcher, in the action or in a child's
  traversal ends the call and the loop over the children, as nothing catches it.
\<close>

function (sequential)
  treeTraverse :: "env \<Rightarrow> string \<Rightarrow> int \<Rightarrow> regex option \<Rightarrow> string \<Rightarrow> bool \<Rightarrow> bool \<Rightarrow> string
                     \<Rightarrow> event list \<times> exn option"
  and traverseChildren :: "env \<Rightarrow> string \<Rightarrow> string list \<Rightarrow> int \<Rightarrow> regex option \<Rightarrow> string \<Rightarrow> bool
                     \<Rightarrow> bool \<Rightarrow> string \<Rightarrow> event list \<times> exn option"
where
  "treeTraverse e thePath recursionDepth regexCompile action verbosity onlyMatches colorKey =
     (case regexCompile of
        None \<Rightarrow> ([Stderr (''Invalid regexCompile: None'' @ [nl])], None)
      | Some rc \<Rightarrow>
          if recursionDepth < 0 then ([], None)
          else if \<not> path_exists e thePath
          then ([Stderr (thePath @ '' doesn't exist'' @ [nl])], None)
          else if \<not> read_access e thePath
          then ([Stderr (''No read access to path '' @ thePath)], None)
          else
            (case matchPatterns e rc thePath verbosity onlyMatches colorKey of
               (ev1, Inl x) \<Rightarrow> (ev1, Some x)
             | (ev1, Inr patternMatchedTrue) \<Rightarrow>
                 (case (if patternMatchedTrue \<and> action \<noteq> []
                        then handleFunctionExecution e action thePath else ([], None)) of
                    (ev2, Some x) \<Rightarrow> (ev1 @ ev2, Some x)
                  | (ev2, None) \<Rightarrow>
                      if is_dir e thePath
                      then (case traverseChildren e thePath (listdir e thePath)
                                   (recursionDepth - 1) regexCompile action verbosity
                                   onlyMatches colorKey of
                              (ev3, r) \<Rightarrow> (ev1 @ ev2 @ Listed thePath # ev3, r))
                      else (ev1 @ ev2, None))))"
| "traverseChildren e thePath [] recursionDepth regexCompile action verbosity onlyMatches
     colorKey = ([], None)"
| "traverseChildren e thePath (child # rest) recursionDepth regexCompile action verbosity
     onlyMatches colorKey =
     (case treeTraverse e (path_join e thePath child) recursionDepth regexCompile action
             verbosity onlyMatches colorKey of
        (ev1, Some x) \<Rightarrow> (ev1, Some x)
      | (ev1, None) \<Rightarrow>
          (case traverseChildren e thePath rest recursionDepth regexCompile action verbosity
                  onlyMatches colorKey of
             (ev2, r) \<Rightarrow> (ev1 @ ev2, r)))"
  by pat_completeness auto
termination
  by (relation "measures
        [\<lambda>a. case a of Inl (e, p, d, r) \<Rightarrow> nat (d + 1) | Inr (e, p, cs, d, r) \<Rightarrow> nat (d + 1),
         \<lambda>a. case a of Inl (e, p, d, r) \<Rightarrow> 0 | Inr (e, p, cs, d, r) \<Rightarrow> Suc (length cs)]")
     auto

subsection \<open>Stdin filter\<close>

text \<open>
  One read of \<open>sys.stdin.readline()\<close>: a line, a KeyboardInterrupt or another exception
  with its text. When the list of reads is used up, \<open>readline\<close> returns the empty string.
\<close>

datatype read = Line string | Interrupt | Fault string

definition perLine ::
  "env \<Rightarrow> regex \<Rightarrow> string \<Rightarrow> bool \<Rightarrow> bool \<Rightarrow> string \<Rightarrow> string \<Rightarrow> event list \<times> exn option" where
  \<comment> \<open>the \<open>else\<close> clause of the \<open>try\<close> statement in \<open>filterStdin\<close>\<close>
  "perLine e regexCompile action verbosity onlyMatches colorKey lineIn0 =
     (let lineIn = strip nl lineIn0 in
      case matchPatterns e regexCompile lineIn verbosity onlyMatches colorKey of
        (ev1, Inl x) \<Rightarrow> (ev1, Some x)
      | (ev1, Inr patternMatchedTrue) \<Rightarrow>
          (if patternMatchedTrue \<and> action \<noteq> []
           then (case handleFunctionExecution e action lineIn of (ev2, r) \<Rightarrow> (ev1 @ ev2, r))
           else (ev1, None)))"

fun filterStdin ::
  "env \<Rightarrow> regex \<Rightarrow> string \<Rightarrow> bool \<Rightarrow> bool \<Rightarrow> string \<Rightarrow> read list \<Rightarrow> event list \<times> exn option" where
  "filterStdin e regexCompile action verbosity onlyMatches colorKey [] =
     perLine e regexCompile action verbosity onlyMatches colorKey []"
| "filterStdin e regexCompile action verbosity onlyMatches colorKey (Line lineIn # rest) =
     (if lineIn = [] then perLine e regexCompile action verbosity onlyMatches colorKey lineIn
      else (case perLine e regexCompile action verbosity onlyMatches colorKey lineIn of
              (ev1, Some x) \<Rightarrow> (ev1, Some x)
            | (ev1, None) \<Rightarrow>
                (case filterStdin e regexCompile action verbosity onlyMatches colorKey rest of
                   (ev2, r) \<Rightarrow> (ev1 @ ev2, r))))"
| "filterStdin e regexCompile action verbosity onlyMatches colorKey (Interrupt # rest) =
     (handlePrint e (''Ctrl-C applied.'' @ [nl] @ ''Exiting now...''), None)"
| "filterStdin e regexCompile action verbosity onlyMatches colorKey (Fault msg # rest) =
     (handlePrint e msg, None)"

subsection \<open>Entry point\<close>

record options =
  targetPath :: string
  regular_expression :: string
  verbosity :: bool
  action :: string
  maxdepth :: "string option"
  onlyMatches :: bool
  ignoreCase :: bool

text \<open>
  \<open>main\<close> starts from the options as \<open>cli_parser\<close> returns them. \<open>maxdepth\<close> is \<open>None\<close> when
  the option is not given: its default is the integer 1, which \<open>int\<close> returns unchanged.
  \<open>Exited n\<close> is \<open>sys.exit(n)\<close>.
\<close>

datatype outcome = Returned | Exited int | Raised exn

definition re_UNICODE :: int where "re_UNICODE = 32"
definition re_IGNORECASE :: int where "re_IGNORECASE = 2"

definition compile_regex :: "env \<Rightarrow> string \<Rightarrow> int \<Rightarrow> exn + regex" where
  \<comment> \<open>lines 252 to 255: \<open>try: re.compile(regex, regexArgs) except: re.compile('^.*$', regexArgs)\<close>\<close>
  "compile_regex e regex regexArgs =
     (case re_compile e regex regexArgs of
        Inr regCompile \<Rightarrow> Inr regCompile
      | Inl x \<Rightarrow> re_compile e match_all regexArgs)"

definition finish :: "event list \<times> exn option \<Rightarrow> event list \<times> outcome" where
  "finish r = (case r of (ev, None) \<Rightarrow> (ev, Returned) | (ev, Some x) \<Rightarrow> (ev, Raised x))"

definition main :: "env \<Rightarrow> options \<Rightarrow> read list \<Rightarrow> event list \<times> outcome" where
  "main e opts stdin =
     (case (case maxdepth opts of None \<Rightarrow> Some 1 | Some s \<Rightarrow> py_int e s) of
        None \<Rightarrow> ([Stderr (''MaxDepth should be an integer.'' @ [nl] @ ''Exiting...'' @ [nl])],
                 Exited (- 1))
      | Some depth \<Rightarrow>
          if depth < 0
          then (handlePrint e (''Illegal maxdepth: range should be >= 0.'' @ [nl] @ ''Exiting..''),
                Exited (- 2))
          else
            (let regexArgs = (if ignoreCase opts then re_UNICODE OR re_IGNORECASE else re_UNICODE)
             in case compile_regex e (sanitize (regular_expression opts)) regexArgs of
                  Inl x \<Rightarrow> ([], Raised x)
                | Inr regCompile \<Rightarrow>
                    if targetPath opts \<noteq> []
                    then finish (treeTraverse e (targetPath opts) depth (Some regCompile)
                                   (action opts) (verbosity opts) (onlyMatches opts) RED)
                    else finish (filterStdin e regCompile (action opts) (verbosity opts)
                                   (onlyMatches opts) RED stdin)))"

section \<open>Notions used to state the properties\<close>

definition evaluated :: "event list \<Rightarrow> string list" where
  \<comment> \<open>the texts given to the matcher, in order\<close>
  "evaluated evs = concat (map (\<lambda>ev. case ev of Evaluated t \<Rightarrow> [t] | _ \<Rightarrow> []) evs)"

definition listed :: "event list \<Rightarrow> string list" where
  \<comment> \<open>the directories whose children were enumerated, in order\<close>
  "listed evs = concat (map (\<lambda>ev. case ev of Listed t \<Rightarrow> [t] | _ \<Rightarrow> []) evs)"

definition stderr_of :: "event list \<Rightarrow> string list" where
  "stderr_of evs = concat (map (\<lambda>ev. case ev of Stderr t \<Rightarrow> [t] | _ \<Rightarrow> []) evs)"

definition is_write :: "event \<Rightarrow> bool" where
  "is_write ev = (case ev of Stdout t \<Rightarrow> True | Stderr t \<Rightarrow> True | _ \<Rightarrow> False)"

definition posix :: "env \<Rightarrow> bool" where
  \<comment> \<open>the branch of \<open>handleFunctionExecution\<close> that calls \<open>Popen\<close> is taken\<close>
  "posix e = (\<not> re_search (lit WINDOWS_NT) (os_name e))"

subsubsection \<open>Levels of a directory tree\<close>

definition children :: "env \<Rightarrow> string \<Rightarrow> string list" where
  \<comment> \<open>the full paths of the entries of a directory; a non-directory has none\<close>
  "children e p = (if is_dir e p then map (path_join e p) (listdir e p) else [])"

fun descendants :: "env \<Rightarrow> string \<Rightarrow> nat \<Rightarrow> string list" where
  \<comment> \<open>the entries exactly \<open>k\<close> levels below the root\<close>
  "descendants e root 0 = [root]"
| "descendants e root (Suc k) = concat (map (children e) (descendants e root k))"

definition visitable :: "env \<Rightarrow> string \<Rightarrow> bool" where
  "visitable e p = (path_exists e p \<and> read_access e p)"

fun level :: "env \<Rightarrow> string \<Rightarrow> nat \<Rightarrow> string list" where
  \<comment> \<open>the entries exactly \<open>k\<close> levels below the root that are reached through existing,
      readable entries only and that exist and are readable themselves\<close>
  "level e root 0 = (if visitable e root then [root] else [])"
| "level e root (Suc k) =
     concat (map (\<lambda>p. filter (visitable e) (children e p)) (level e root k))"

definition within :: "env \<Rightarrow> string \<Rightarrow> nat \<Rightarrow> string list" where
  \<comment> \<open>such entries at most \<open>D\<close> levels below the root\<close>
  "within e root D = concat (map (level e root) [0..<Suc D])"

definition reach :: "env \<Rightarrow> string \<Rightarrow> int \<Rightarrow> string set" where
  \<comment> \<open>the same for a depth budget that may be negative\<close>
  "reach e p d = (if d < 0 then {} else set (within e p (nat d)))"

subsubsection \<open>Patterns without bare asterisks and dots\<close>

fun stars_guarded :: "char option \<Rightarrow> string \<Rightarrow> bool" where
  \<comment> \<open>every \<open>*\<close> stands right after a \<open>.\<close> or a backslash; the first argument is the
      character before the string, if any\<close>
  "stars_guarded prev [] = True"
| "stars_guarded prev (c # r) =
     ((c \<noteq> CHR ''*'' \<or> prev = Some (CHR ''.'') \<or> prev = Some bslash) \<and> stars_guarded (Some c) r)"

fun dots_guarded :: "char option \<Rightarrow> string \<Rightarrow> bool" where
  \<comment> \<open>every \<open>.\<close> stands right after a backslash or right before a \<open>*\<close>\<close>
  "dots_guarded prev [] = True"
| "dots_guarded prev (c # r) =
     ((c \<noteq> CHR ''.'' \<or> prev = Some bslash \<or> (r \<noteq> [] \<and> hd r = CHR ''*''))
      \<and> dots_guarded (Some c) r)"

fun dots_apart :: "char option \<Rightarrow> string \<Rightarrow> bool" where
  \<comment> \<open>no \<open>.\<close> stands right after a \<open>.\<close>, a \<open>*\<close> or a \<open>^\<close>\<close>
  "dots_apart prev [] = True"
| "dots_apart prev (c # r) =
     ((c \<noteq> CHR ''.'' \<or> (prev \<noteq> Some (CHR ''.'') \<and> prev \<noteq> Some (CHR ''*'') \<and> prev \<noteq> Some (CHR ''^'')))
      \<and> dots_apart (Some c) r)"

definition no_bare_star :: "string \<Rightarrow> bool" where
  "no_bare_star s = stars_guarded None s"

definition no_bare_dot :: "string \<Rightarrow> bool" where
  "no_bare_dot s = dots_guarded None s"

fun star_run_after :: "char option \<Rightarrow> string \<Rightarrow> bool" where
  \<comment> \<open>the string holds a run of \<open>*\<close> that does not stand right after a \<open>.\<close>: some \<open>*\<close>
      follows neither a \<open>*\<close> nor a \<open>.\<close>\<close>
  "star_run_after prev [] = False"
| "star_run_after prev (c # r) =
     ((c = CHR ''*'' \<and> prev \<noteq> Some (CHR ''*'') \<and> prev \<noteq> Some (CHR ''.'')) \<or> star_run_after (Some c) r)"

definition spec_unsafe_asterisk :: "string \<Rightarrow> bool" where
  \<comment> \<open>the rule in the words of the specification\<close>
  "spec_unsafe_asterisk s = (s = ''*'' \<or> star_run_after None s)"

subsubsection \<open>Argument tokens\<close>

function tokens :: "(char \<Rightarrow> bool) \<Rightarrow> string \<Rightarrow> string list" where
  \<comment> \<open>the maximal runs of characters that are not separators\<close>
  "tokens sep s =
     (case dropWhile sep s of
        [] \<Rightarrow> []
      | c # cs \<Rightarrow> (c # takeWhile (\<lambda>x. \<not> sep x) cs) # tokens sep (dropWhile (\<lambda>x. \<not> sep x) cs))"
  by pat_completeness auto
termination
proof (relation "measure (\<lambda>(sep, s). length s)")
  show "wf (measure (\<lambda>(sep, s). length s))" by simp
next
  fix sep :: "char \<Rightarrow> bool" and s :: string and c cs
  assume d: "dropWhile sep s = c # cs"
  have "length (dropWhile (\<lambda>x. \<not> sep x) cs) \<le> length cs"
    by (rule length_dropWhile_le)
  moreover have "length (c # cs) \<le> length s"
    using length_dropWhile_le [of sep s] d by simp
  ultimately show "((sep, dropWhile (\<lambda>x. \<not> sep x) cs), (sep, s)) \<in> measure (\<lambda>(sep, s). length s)"
    by simp
qed

definition is_space :: "char \<Rightarrow> bool" where
  "is_space c = (c = CHR '' '')"

definition is_whitespace :: "char \<Rightarrow> bool" where
  \<comment> \<open>space, tab, newline, vertical tab, form feed, carriage return\<close>
  "is_whitespace c = (c \<in> set [CHR '' '', tab, nl, CHR 0x0B, CHR 0x0C, CHR 0x0D])"

subsubsection \<open>Example environments\<close>

definition is_digit :: "char \<Rightarrow> bool" where
  "is_digit c = (48 \<le> (of_char c :: nat) \<and> (of_char c :: nat) \<le> 57)"

definition nat_of_digits :: "string \<Rightarrow> nat option" where
  "nat_of_digits s =
     (if s \<noteq> [] \<and> list_all is_digit s
      then Some (foldl (\<lambda>n c. 10 * n + (of_char c - 48)) 0 s) else None)"

definition decimal :: "string \<Rightarrow> int option" where
  \<comment> \<open>\<open>int\<close> on the strings that are decimal digits after an optional minus sign\<close>
  "decimal s =
     (case s of
        [] \<Rightarrow> None
      | c # r \<Rightarrow> if c = CHR ''-'' then map_option (\<lambda>n. - int n) (nat_of_digits r)
                 else map_option int (nat_of_digits s))"

definition whole_subject :: regex where
  \<comment> \<open>what \<open>findall\<close> of the compiled \<open>^.*$\<close> returns on a subject without newline\<close>
  "whole_subject t = [Str t]"

definition find_char :: "char \<Rightarrow> regex" where
  \<comment> \<open>what \<open>findall\<close> of a pattern that is one ordinary character returns\<close>
  "find_char c t = map (\<lambda>x. Str [x]) (filter (\<lambda>x. x = c) t)"

definition demo_compile :: "string \<Rightarrow> int \<Rightarrow> exn + regex" where
  \<comment> \<open>a \<open>re.compile\<close> that knows three kinds of pattern: one starting with \<open>*\<close> is
      rejected ("nothing to repeat"), one ordinary character, and everything else is
      taken to match the whole subject\<close>
  "demo_compile s flags =
     (case s of
        [] \<Rightarrow> Inr whole_subject
      | c # r \<Rightarrow> if c = CHR ''*'' then Inl ReError
                 else if r = [] \<and> c \<noteq> CHR ''.'' then Inr (find_char c)
                 else Inr whole_subject)"

definition demo_env :: env where
  \<comment> \<open>a POSIX host with the tree \<open>r/{a/{c}, b}\<close>, \<open>r\<close> and \<open>r/a\<close> being directories\<close>
  "demo_env =
     \<lparr> os_name = ''posix'',
       path_exists = (\<lambda>p. p \<in> set [''r'', ''r/a'', ''r/b'', ''r/a/c'']),
       read_access = (\<lambda>p. True),
       is_dir = (\<lambda>p. p \<in> set [''r'', ''r/a'']),
       listdir = (\<lambda>p. if p = ''r'' then [''a'', ''b''] else if p = ''r/a'' then [''c''] else []),
       path_join = posix_join,
       popen_raises = (\<lambda>argv. None),
       shell_output = (\<lambda>c. []),
       encodable = (\<lambda>s. True),
       encode_error = (\<lambda>s. ''codec can't encode''),
       py_int = decimal,
       re_compile = demo_compile \<rparr>"

definition unreadable_env :: env where
  \<comment> \<open>the same tree, the user having no read access to \<open>r/a\<close>\<close>
  "unreadable_env = demo_env \<lparr> read_access := (\<lambda>p. p \<noteq> ''r/a'') \<rparr>"


definition ascii_env :: env where
  \<comment> \<open>the same host with a standard output that encodes ASCII only\<close>
  "ascii_env = demo_env \<lparr> encodable := (\<lambda>s. list_all (\<lambda>c. (of_char c :: nat) < 128) s) \<rparr>"

definition demo_opts :: options where
  \<comment> \<open>a command line whose maximum depth is not a number\<close>
  "demo_opts = \<lparr> targetPath = ''r'', regular_expression = ''.*'', verbosity = True, action = [],
                 maxdepth = Some ''abc'', onlyMatches = False, ignoreCase = True \<rparr>"

definition nt_env :: env where
  \<comment> \<open>a host whose \<open>os.name\<close> is \<open>nt\<close> and whose shell answers \<open>out\<close> to every command\<close>
  "nt_env = demo_env \<lparr> os_name := ''nt'', shell_output := (\<lambda>c. ''out'') \<rparr>"

subsubsection \<open>The dispatcher in the words of the specification\<close>

fun join_with :: "string \<Rightarrow> string list \<Rightarrow> string" where
  \<comment> \<open>the parts written one after the other with \<open>sep\<close> between them\<close>
  "join_with sep [] = []"
| "join_with sep [p] = p"
| "join_with sep (p # q # ps) = p @ sep @ join_with sep (q # ps)"

definition spec_dispatch :: "env \<Rightarrow> string \<Rightarrow> event list \<times> exn option" where
  \<comment> \<open>what is done with a concrete command line: where \<open>Popen\<close> is used, its maximal runs
      of characters other than a space are the arguments of a direct child process; on the
      other hosts it is run through the shell and the captured output is printed\<close>
  "spec_dispatch e cmdText =
     (if posix e
      then (case popen_raises e (tokens is_space cmdText) of
              Some x \<Rightarrow> ([], Some x)
            | None \<Rightarrow> ([Spawned (tokens is_space cmdText)], None))
      else (Shell cmdText # handlePrint e (shell_output e cmdText), None))"

section \<open>Events of the components\<close>


lemma evaluated_simps [simp]:
  "evaluated [] = []"
  "evaluated (Evaluated t # evs) = t # evaluated evs"
  "evaluated (Stdout t # evs) = evaluated evs"
  "evaluated (Stderr t # evs) = evaluated evs"
  "evaluated (Listed t # evs) = evaluated evs"
  "evaluated (Spawned a # evs) = evaluated evs"
  "evaluated (Shell t # evs) = evaluated evs"
  "evaluated (xs @ ys) = evaluated xs @ evaluated ys"
  by (simp_all add: evaluated_def)

lemma listed_simps [simp]:
  "listed [] = []"
  "listed (Evaluated t # evs) = listed evs"
  "listed (Stdout t # evs) = listed evs"
  "listed (Stderr t # evs) = listed evs"
  "listed (Listed t # evs) = t # listed evs"
  "listed (Spawned a # evs) = listed evs"
  "listed (Shell t # evs) = listed evs"
  "listed (xs @ ys) = listed xs @ listed ys"
  by (simp_all add: listed_def)

lemma handlePrint_is_write: "ev \<in> set (handlePrint e s) \<Longrightarrow> is_write ev"
  by (auto simp: handlePrint_def is_write_def split: if_splits)

lemma handlePrint_evaluated [simp]: "evaluated (handlePrint e s) = []"
  by (simp add: handlePrint_def)

lemma handlePrint_listed [simp]: "listed (handlePrint e s) = []"
  by (simp add: handlePrint_def)

lemma matchPatterns_events:
  "\<exists>s. fst (matchPatterns e rc text v om ck) = Evaluated text # handlePrint e s"
proof -
  have nil: "handlePrint e [] = []" by (simp add: handlePrint_def)
  show ?thesis
    unfolding matchPatterns_def Let_def
    by (auto split: option.splits intro: exI [of _ "[]"] simp: nil)
qed

lemma matchPatterns_evaluated [simp]:
  "evaluated (fst (matchPatterns e rc text v om ck)) = [text]"
  using matchPatterns_events [of e rc "text" v om ck] by auto

lemma matchPatterns_listed [simp]:
  "listed (fst (matchPatterns e rc text v om ck)) = []"
  using matchPatterns_events [of e rc "text" v om ck] by auto

lemma handleFunctionExecution_evaluated [simp]:
  "evaluated (fst (handleFunctionExecution e a s)) = []"
  by (simp add: handleFunctionExecution_def Let_def split: option.splits)

lemma handleFunctionExecution_listed [simp]:
  "listed (fst (handleFunctionExecution e a s)) = []"
  by (simp add: handleFunctionExecution_def Let_def split: option.splits)


lemma matchPatterns_result:
  assumes "matchPatterns e rc t v om ck = (ev, r)"
  shows "listed ev = []" and "evaluated ev = [t]"
  using matchPatterns_listed [of e rc t v om ck] matchPatterns_evaluated [of e rc t v om ck] assms
  by simp_all

lemma action_result:
  assumes "(if b \<and> a \<noteq> [] then handleFunctionExecution e a s else ([], None)) = (ev, r)"
  shows "listed ev = []" and "evaluated ev = []"
proof -
  have "ev = [] \<or> ev = fst (handleFunctionExecution e a s)"
    using assms by (auto split: if_splits)
  then show "listed ev = []" and "evaluated ev = []" by auto
qed

lemma listed_sound:
  "set (listed (fst (treeTraverse e p d rc a v om ck))) \<subseteq> {q. visitable e q \<and> is_dir e q}"
  "set (listed (fst (traverseChildren e p cs d rc a v om ck))) \<subseteq> {q. visitable e q \<and> is_dir e q}"
proof (induction e p d rc a v om ck and e p cs d rc a v om ck
       rule: treeTraverse_traverseChildren.induct)
  case (1 e p d rc a v om ck)
  show ?case
  proof (cases rc)
    case None
    then show ?thesis by (subst treeTraverse.simps) simp
  next
    case (Some f)
    show ?thesis
    proof (cases "d < 0 \<or> \<not> path_exists e p \<or> \<not> read_access e p")
      case True
      then show ?thesis using Some by (subst treeTraverse.simps) auto
    next
      case False
      obtain ev1 r1 where m: "matchPatterns e f p v om ck = (ev1, r1)"
        by (cases "matchPatterns e f p v om ck")
      show ?thesis
      proof (cases r1)
        case (Inl x)
        then show ?thesis using Some False m matchPatterns_result(1) [OF m]
          by (subst treeTraverse.simps) simp
      next
        case (Inr b)
        obtain ev2 r2 where h: "(if b \<and> a \<noteq> [] then handleFunctionExecution e a p else ([], None)) = (ev2, r2)"
          by (cases "if b \<and> a \<noteq> [] then handleFunctionExecution e a p else ([], None)")
        show ?thesis
        proof (cases "r2 = None \<and> is_dir e p")
          case True
          have ih: "set (listed (fst (traverseChildren e p (listdir e p) (d - 1) rc a v om ck)))
                      \<subseteq> {q. visitable e q \<and> is_dir e q}"
            using "1.IH" [OF Some _ _ _ m [symmetric] Inr h [symmetric]] False True by simp
          obtain ev3 r3 where c: "traverseChildren e p (listdir e p) (d - 1) rc a v om ck = (ev3, r3)"
            by (cases "traverseChildren e p (listdir e p) (d - 1) rc a v om ck")
          show ?thesis
            using Some False m Inr h True c ih
              matchPatterns_result(1) [OF m] action_result(1) [OF h]
            by (subst treeTraverse.simps) (simp add: visitable_def)
        next
          case F2: False
          then show ?thesis
            using Some False m Inr h matchPatterns_result(1) [OF m] action_result(1) [OF h]
            by (subst treeTraverse.simps) (auto split: option.splits)
        qed
      qed
    qed
  qed
next
  case (2 e p d rc a v om ck)
  show ?case by simp
next
  case (3 e p child rest d rc a v om ck)
  obtain ev1 r1 where t: "treeTraverse e (path_join e p child) d rc a v om ck = (ev1, r1)"
    by (cases "treeTraverse e (path_join e p child) d rc a v om ck")
  show ?case
  proof (cases r1)
    case None
    obtain ev2 r2 where c: "traverseChildren e p rest d rc a v om ck = (ev2, r2)"
      by (cases "traverseChildren e p rest d rc a v om ck")
    show ?thesis
      using "3.IH"(1) "3.IH"(2) [OF t [symmetric] None] t None c by simp
  next
    case (Some x)
    then show ?thesis using "3.IH"(1) t by simp
  qed
qed



lemma level_shift:
  "set (level e root (Suc k)) =
     (if visitable e root then (\<Union>c\<in>set (children e root). set (level e c k)) else {})"
proof (induction k)
  case 0
  show ?case by auto
next
  case (Suc k)
  have "set (level e root (Suc (Suc k))) =
          (\<Union>p\<in>set (level e root (Suc k)). set (filter (visitable e) (children e p)))"
    by simp
  also have "\<dots> = (if visitable e root
                   then (\<Union>c\<in>set (children e root). \<Union>p\<in>set (level e c k).
                            set (filter (visitable e) (children e p)))
                   else {})"
    unfolding Suc.IH by auto
  also have "\<dots> = (if visitable e root
                   then (\<Union>c\<in>set (children e root). set (level e c (Suc k))) else {})"
    by simp
  finally show ?case .
qed

lemma set_within: "set (within e p D) = (\<Union>k\<in>{0..<Suc D}. set (level e p k))"
proof -
  have "set (within e p D) = (\<Union>k\<in>set [0..<Suc D]. set (level e p k))"
    unfolding within_def by (simp del: upt_Suc)
  then show ?thesis by (simp only: set_upt)
qed

lemma within_0: "set (within e p 0) = (if visitable e p then {p} else {})"
  by (simp add: within_def)

lemma within_Suc:
  "set (within e p (Suc D)) =
     (if visitable e p then insert p (\<Union>c\<in>set (children e p). set (within e c D)) else {})"
proof -
  have split: "{0..<Suc (Suc D)} = insert 0 (Suc ` {0..<Suc D})"
    by (rule atLeast0_lessThan_Suc_eq_insert_0)
  have "set (within e p (Suc D)) =
          set (level e p 0) \<union> (\<Union>k\<in>{0..<Suc D}. set (level e p (Suc k)))"
    unfolding set_within split by (simp del: level.simps image_Suc_atLeastLessThan)
  also have "\<dots> = (if visitable e p
                   then insert p (\<Union>k\<in>{0..<Suc D}. \<Union>c\<in>set (children e p). set (level e c k))
                   else {})"
    by (simp del: level.simps add: level_shift level.simps(1))
  also have "\<dots> = (if visitable e p
                   then insert p (\<Union>c\<in>set (children e p). set (within e c D)) else {})"
    unfolding set_within by auto
  finally show ?thesis .
qed

lemma reach_unfold:
  assumes "0 \<le> d"
  shows "reach e p d =
           (if visitable e p then insert p (\<Union>c\<in>set (children e p). reach e c (d - 1)) else {})"
proof (cases "d = 0")
  case True
  then show ?thesis by (simp add: reach_def within_0)
next
  case False
  with assms have "nat d = Suc (nat (d - 1))" by simp
  then show ?thesis using assms False by (simp add: reach_def within_Suc)
qed

lemma traverseChildren_below:
  "d < 0 \<Longrightarrow> traverseChildren e p cs d (Some f) a v om ck = ([], None)"
  by (induction cs) (simp_all add: treeTraverse.simps [of e _ d])

lemma evaluated_reach:
  "rc \<noteq> None \<Longrightarrow>
     set (evaluated (fst (treeTraverse e p d rc a v om ck))) \<subseteq> reach e p d \<and>
     (snd (treeTraverse e p d rc a v om ck) = None \<longrightarrow>
        set (evaluated (fst (treeTraverse e p d rc a v om ck))) = reach e p d)"
  "rc \<noteq> None \<Longrightarrow>
     set (evaluated (fst (traverseChildren e p cs d rc a v om ck)))
        \<subseteq> (\<Union>c\<in>set cs. reach e (path_join e p c) d) \<and>
     (snd (traverseChildren e p cs d rc a v om ck) = None \<longrightarrow>
        set (evaluated (fst (traverseChildren e p cs d rc a v om ck)))
          = (\<Union>c\<in>set cs. reach e (path_join e p c) d))"
proof (induction e p d rc a v om ck and e p cs d rc a v om ck
       rule: treeTraverse_traverseChildren.induct)
  case (1 e p d rc a v om ck)
  then obtain f where Some: "rc = Some f" by auto
  show ?case
  proof (cases "d < 0")
    case True
    then show ?thesis using Some by (subst (1 2 3) treeTraverse.simps) (simp add: reach_def)
  next
    case nonneg: False
    then have d0: "0 \<le> d" by simp
    show ?thesis
    proof (cases "visitable e p")
      case False
      then show ?thesis using Some nonneg reach_unfold [OF d0, of e p]
        by (subst (1 2 3) treeTraverse.simps) (auto simp: visitable_def)
    next
      case vis: True
      then have guards: "path_exists e p" "read_access e p" by (simp_all add: visitable_def)
      obtain ev1 r1 where m: "matchPatterns e f p v om ck = (ev1, r1)"
        by (cases "matchPatterns e f p v om ck")
      note e1 = matchPatterns_result(2) [OF m]
      show ?thesis
      proof (cases r1)
        case (Inl x)
        then show ?thesis using Some nonneg guards m e1 vis reach_unfold [OF d0, of e p]
          by (subst (1 2 3) treeTraverse.simps) simp
      next
        case (Inr b)
        obtain ev2 r2 where h: "(if b \<and> a \<noteq> [] then handleFunctionExecution e a p else ([], None)) = (ev2, r2)"
          by (cases "if b \<and> a \<noteq> [] then handleFunctionExecution e a p else ([], None)")
        note e2 = action_result(2) [OF h]
        show ?thesis
        proof (cases "r2 = None \<and> is_dir e p")
          case True
          have ih: "set (evaluated (fst (traverseChildren e p (listdir e p) (d - 1) rc a v om ck)))
                      \<subseteq> (\<Union>c\<in>set (listdir e p). reach e (path_join e p c) (d - 1)) \<and>
                    (snd (traverseChildren e p (listdir e p) (d - 1) rc a v om ck) = None \<longrightarrow>
                     set (evaluated (fst (traverseChildren e p (listdir e p) (d - 1) rc a v om ck)))
                      = (\<Union>c\<in>set (listdir e p). reach e (path_join e p c) (d - 1)))"
            using "1.IH" [OF Some _ _ _ m [symmetric] Inr h [symmetric]] nonneg guards True Some
            by simp
          obtain ev3 r3 where c: "traverseChildren e p (listdir e p) (d - 1) rc a v om ck = (ev3, r3)"
            by (cases "traverseChildren e p (listdir e p) (d - 1) rc a v om ck")
          have res: "treeTraverse e p d rc a v om ck = (ev1 @ ev2 @ Listed p # ev3, r3)"
            using Some nonneg guards m Inr h True c by (subst treeTraverse.simps) simp
          have r: "reach e p d = insert p (\<Union>c\<in>set (listdir e p). reach e (path_join e p c) (d - 1))"
            using reach_unfold [OF d0, of e p] vis True by (simp add: children_def)
          show ?thesis using ih unfolding res r c by (auto simp: e1 e2)
        next
          case F2: False
          have res: "treeTraverse e p d rc a v om ck = (ev1 @ ev2, r2)"
            using Some nonneg guards m Inr h F2 by (subst treeTraverse.simps) (auto split: option.splits)
          have r: "r2 = None \<Longrightarrow> reach e p d = {p}"
            using reach_unfold [OF d0, of e p] vis F2 by (simp add: children_def)
          have "p \<in> reach e p d" using reach_unfold [OF d0, of e p] vis by simp
          then show ?thesis using r unfolding res by (auto simp: e1 e2)
        qed
      qed
    qed
  qed
next
  case (2 e p d rc a v om ck)
  show ?case by simp
next
  case (3 e p child rest d rc a v om ck)
  obtain ev1 r1 where t: "treeTraverse e (path_join e p child) d rc a v om ck = (ev1, r1)"
    by (cases "treeTraverse e (path_join e p child) d rc a v om ck")
  have ih1: "set (evaluated ev1) \<subseteq> reach e (path_join e p child) d"
            "r1 = None \<Longrightarrow> set (evaluated ev1) = reach e (path_join e p child) d"
    using "3.IH"(1) [OF "3.prems"] t by simp_all
  show ?case
  proof (cases r1)
    case None
    obtain ev2 r2 where c: "traverseChildren e p rest d rc a v om ck = (ev2, r2)"
      by (cases "traverseChildren e p rest d rc a v om ck")
    have ih2: "set (evaluated ev2) \<subseteq> (\<Union>c\<in>set rest. reach e (path_join e p c) d)"
              "r2 = None \<Longrightarrow> set (evaluated ev2) = (\<Union>c\<in>set rest. reach e (path_join e p c) d)"
      using "3.IH"(2) [OF t [symmetric] None "3.prems"] c by simp_all
    show ?thesis
      using ih1 ih2 t None c by auto
  next
    case (Some x)
    then show ?thesis using ih1 t by auto
  qed
qed


lemma handleFunctionExecution_result:
  assumes "handleFunctionExecution e a s = (ev, r)"
  shows "listed ev = []" and "evaluated ev = []"
  using handleFunctionExecution_listed [of e a s] handleFunctionExecution_evaluated [of e a s]
  unfolding assms by simp_all

section \<open>Tree traverser: depth bound and recursion guard\<close>

text \<open>
  C1, as the code has it. For a depth \<open>D \<ge> 0\<close> the matcher is only ever given entries at
  most \<open>D\<close> levels below the root that exist, are readable and are reached through existing,
  readable directories; when the traversal returns without an exception it is given every
  such entry. With \<open>D = 0\<close> the matcher is given the root alone, once, if the root exists and
  is readable, and nothing otherwise.
\<close>

theorem treeTraverse_depth_bound:
  assumes "0 \<le> D"
  shows "set (evaluated (fst (treeTraverse e root D (Some rc) a v om ck)))
           \<subseteq> set (within e root (nat D))
       \<and> (snd (treeTraverse e root D (Some rc) a v om ck) = None \<longrightarrow>
            set (evaluated (fst (treeTraverse e root D (Some rc) a v om ck)))
              = set (within e root (nat D)))
       \<and> (D = 0 \<longrightarrow>
            evaluated (fst (treeTraverse e root D (Some rc) a v om ck))
              = (if visitable e root then [root] else []))"
proof -
  have r: "reach e root D = set (within e root (nat D))"
    using assms by (simp add: reach_def)
  have bound: "set (evaluated (fst (treeTraverse e root D (Some rc) a v om ck)))
                 \<subseteq> set (within e root (nat D))
             \<and> (snd (treeTraverse e root D (Some rc) a v om ck) = None \<longrightarrow>
                  set (evaluated (fst (treeTraverse e root D (Some rc) a v om ck)))
                    = set (within e root (nat D)))"
    using evaluated_reach(1) [of "Some rc" e root D a v om ck] unfolding r by simp
  have zero: "evaluated (fst (treeTraverse e root 0 (Some rc) a v om ck))
                = (if visitable e root then [root] else [])"
  proof (cases "visitable e root")
    case False
    then show ?thesis by (subst treeTraverse.simps) (auto simp: visitable_def)
  next
    case True
    obtain ev1 r1 where m: "matchPatterns e rc root v om ck = (ev1, r1)"
      by (cases "matchPatterns e rc root v om ck")
    have below: "traverseChildren e root (listdir e root) (0 - 1) (Some rc) a v om ck = ([], None)"
      by (rule traverseChildren_below) simp
    show ?thesis
      using True m matchPatterns_result(2) [OF m] below
      by (subst treeTraverse.simps)
         (auto simp: visitable_def split: sum.splits prod.splits option.splits
               dest: handleFunctionExecution_result(2))
  qed
  show ?thesis using bound zero by blast
qed



theorem treeTraverse_depth_bound_witness:
  "set (evaluated (fst (treeTraverse demo_env ''r'' 1 (Some whole_subject) [] False False RED)))
     = {''r'', ''r/a'', ''r/b''}
   \<and> evaluated (fst (treeTraverse demo_env ''r'' 0 (Some whole_subject) [] False False RED))
     = [''r'']"
proof -
  have h: "(0::int) \<le> 1" "(0::int) \<le> 0" by simp_all
  have n: "snd (treeTraverse demo_env ''r'' 1 (Some whole_subject) [] False False RED) = None"
    by code_simp
  have "within demo_env ''r'' (nat 1) = [''r'', ''r/a'', ''r/b'']"
    by code_simp
  then have w: "set (within demo_env ''r'' (nat 1)) = {''r'', ''r/a'', ''r/b''}"
    by (simp only: list.set)
  have v: "visitable demo_env ''r''"
    by code_simp
  have "set (evaluated (fst (treeTraverse demo_env ''r'' 1 (Some whole_subject) [] False False RED)))
          = set (within demo_env ''r'' (nat 1))"
    using treeTraverse_depth_bound [OF h(1), of demo_env "''r''" whole_subject "[]" False False RED] n
    by blast
  moreover have "evaluated (fst (treeTraverse demo_env ''r'' 0 (Some whole_subject) [] False False RED))
                   = (if visitable demo_env ''r'' then [''r''] else [])"
    using treeTraverse_depth_bound [OF h(2), of demo_env "''r''" whole_subject "[]" False False RED]
    by blast
  ultimately show ?thesis
    using v by (simp only: w if_True simp_thms)
qed

text \<open>
  C1 as stated fails on a tree with an entry the user cannot read: \<open>r/a\<close> is one level
  below the root \<open>r\<close>, the depth is 1, and the matcher is never given \<open>r/a\<close>.
\<close>

theorem treeTraverse_all_descendants_counterexample:
  "''r/a'' \<in> set (descendants unreadable_env ''r'' 1)
   \<and> ''r/a'' \<notin> set (evaluated (fst (treeTraverse unreadable_env ''r'' 1 (Some whole_subject) []
                                      True False RED)))"
  by code_simp

text \<open>
  C8. The children of a path are enumerated only if the path exists, is readable and is a
  directory; a traversal that starts at an existing, readable entry that is not a
  directory gives that entry to the matcher and enumerates nothing.
\<close>

theorem treeTraverse_recursion_guard:
  "(\<forall>q\<in>set (listed (fst (treeTraverse e root d rc a v om ck))).
       path_exists e q \<and> read_access e q \<and> is_dir e q)
   \<and> (path_exists e p \<and> read_access e p \<and> \<not> is_dir e p \<and> 0 \<le> d' \<longrightarrow>
        evaluated (fst (treeTraverse e p d' (Some f) a v om ck)) = [p]
        \<and> listed (fst (treeTraverse e p d' (Some f) a v om ck)) = [])"
proof -
  have one: "\<forall>q\<in>set (listed (fst (treeTraverse e root d rc a v om ck))).
               path_exists e q \<and> read_access e q \<and> is_dir e q"
    using listed_sound(1) [of e root d rc a v om ck] by (auto simp: visitable_def)
  have two: "evaluated (fst (treeTraverse e p d' (Some f) a v om ck)) = [p]
             \<and> listed (fst (treeTraverse e p d' (Some f) a v om ck)) = []"
    if g: "path_exists e p" "read_access e p" "\<not> is_dir e p" "0 \<le> d'"
  proof -
    obtain ev1 r1 where m: "matchPatterns e f p v om ck = (ev1, r1)"
      by (cases "matchPatterns e f p v om ck")
    show ?thesis
      using g m matchPatterns_result [OF m]
      by (subst (1 2) treeTraverse.simps)
         (auto split: sum.splits prod.splits option.splits dest: handleFunctionExecution_result)
  qed
  show ?thesis using one two by blast
qed

theorem treeTraverse_recursion_guard_witness:
  "listed (fst (treeTraverse demo_env ''r'' 2 (Some whole_subject) [] False False RED))
     = [''r'', ''r/a'']
   \<and> path_exists demo_env ''r/a'' \<and> read_access demo_env ''r/a'' \<and> is_dir demo_env ''r/a''
   \<and> evaluated (fst (treeTraverse demo_env ''r/b'' 0 (Some whole_subject) [] False False RED))
     = [''r/b'']
   \<and> listed (fst (treeTraverse demo_env ''r/b'' 0 (Some whole_subject) [] False False RED)) = []"
proof -
  have l: "listed (fst (treeTraverse demo_env ''r'' 2 (Some whole_subject) [] False False RED))
             = [''r'', ''r/a'']"
    by code_simp
  have g: "path_exists demo_env ''r/b'' \<and> read_access demo_env ''r/b'' \<and> \<not> is_dir demo_env ''r/b''
           \<and> (0::int) \<le> 0"
    by code_simp
  note t = treeTraverse_recursion_guard
            [of demo_env "''r''" 2 "Some whole_subject" "[]" False False RED "''r/b''" 0 whole_subject]
  have "\<forall>q\<in>set [''r'', ''r/a'']. path_exists demo_env q \<and> read_access demo_env q \<and> is_dir demo_env q"
    using t unfolding l by blast
  then have a: "path_exists demo_env ''r/a'' \<and> read_access demo_env ''r/a'' \<and> is_dir demo_env ''r/a''"
    by simp
  have b: "evaluated (fst (treeTraverse demo_env ''r/b'' 0 (Some whole_subject) [] False False RED))
             = [''r/b'']
           \<and> listed (fst (treeTraverse demo_env ''r/b'' 0 (Some whole_subject) [] False False RED)) = []"
    using t g by blast
  show ?thesis using l a b by blast
qed

section \<open>Action dispatcher: a command that cannot be started\<close>

lemma handleFunctionExecution_posix:
  assumes "posix e"
  shows "handleFunctionExecution e a s =
           (case popen_raises e (cmdList_of (str_replace SUB_KEY s a)) of
              Some x \<Rightarrow> ([], Some x)
            | None \<Rightarrow> ([Spawned (cmdList_of (str_replace SUB_KEY s a))], None))"
  using assms by (simp add: handleFunctionExecution_def posix_def Let_def)






section \<open>Matcher: where the output goes\<close>

text \<open>
  C9, as the code has it. \<open>matchPatterns\<close> writes nothing or one line. The line goes to
  standard output if standard output can encode it; if not, \<open>handlePrint\<close> writes a notice
  and the text of the encoding error to standard error, and nothing to standard output.
\<close>

theorem matchPatterns_output:
  "fst (matchPatterns e rc t v om ck) = [Evaluated t]
   \<or> (\<exists>s. encodable e (s @ [nl])
          \<and> fst (matchPatterns e rc t v om ck) = [Evaluated t, Stdout (s @ [nl])])
   \<or> (\<exists>s. \<not> encodable e (s @ [nl])
          \<and> fst (matchPatterns e rc t v om ck)
              = [Evaluated t, Stderr (''UnicodeEncodeError encode while trying to print'' @ [nl]),
                 Stderr (encode_error e (s @ [nl]))])"
proof -
  obtain s where s: "fst (matchPatterns e rc t v om ck) = Evaluated t # handlePrint e s"
    using matchPatterns_events by blast
  show ?thesis
  proof (cases "s = []")
    case True
    then show ?thesis using s by (simp add: handlePrint_def)
  next
    case False
    show ?thesis
    proof (cases "encodable e (s @ [nl])")
      case True
      then have "fst (matchPatterns e rc t v om ck) = [Evaluated t, Stdout (s @ [nl])]"
        using s False by (simp add: handlePrint_def)
      then show ?thesis using True by blast
    next
      case F: False
      then have "fst (matchPatterns e rc t v om ck)
              = [Evaluated t, Stderr (''UnicodeEncodeError encode while trying to print'' @ [nl]),
                 Stderr (encode_error e (s @ [nl]))]"
        using s False by (simp add: handlePrint_def)
      then show ?thesis using F by blast
    qed
  qed
qed

theorem matchPatterns_output_witness:
  "fst (matchPatterns demo_env whole_subject ''r'' True False RED)
     = [Evaluated ''r'', Stdout ([esc] @ ''[31mr'' @ [esc] @ ''[0m'' @ [nl])]"
proof -
  have "fst (matchPatterns demo_env whole_subject ''r'' True False RED)
     = [Evaluated ''r'', Stdout ([esc] @ ''[31mr'' @ [esc] @ ''[0m'' @ [nl])]"
    by code_simp
  then show ?thesis using matchPatterns_output [of demo_env whole_subject "''r''" True False RED]
    by blast
qed

text \<open>
  C9 as stated fails: standard output encodes ASCII only and the subject holds the
  character \<open>0xE9\<close>, so the line is reported on standard error.
\<close>

theorem matchPatterns_stderr_counterexample:
  "stderr_of (fst (matchPatterns ascii_env whole_subject [CHR ''a'', CHR 0xE9] True False RED))
     = [''UnicodeEncodeError encode while trying to print'' @ [nl], ''codec can't encode'']"
  by code_simp

section \<open>Entry point: the maximum depth\<close>

text \<open>
  C7. When the option for the maximum depth is given and \<open>int\<close> rejects it, \<open>main\<close> writes
  its message to standard error and calls \<open>sys.exit(-1)\<close>; when it is a negative integer,
  \<open>main\<close> prints its message and calls \<open>sys.exit(-2)\<close>. In both cases nothing else has
  happened: no path was given to the matcher, no directory was enumerated, no line was
  taken from standard input and no command was started.
\<close>

theorem main_rejects_bad_maxdepth:
  assumes "maxdepth opts = Some s"
  shows "(py_int e s = None \<longrightarrow>
            main e opts stdin
              = ([Stderr (''MaxDepth should be an integer.'' @ [nl] @ ''Exiting...'' @ [nl])],
                 Exited (- 1)))
       \<and> ((\<exists>n. py_int e s = Some n \<and> n < 0) \<longrightarrow>
            main e opts stdin
              = (handlePrint e (''Illegal maxdepth: range should be >= 0.'' @ [nl] @ ''Exiting..''),
                 Exited (- 2)))
       \<and> (py_int e s = None \<or> (\<exists>n. py_int e s = Some n \<and> n < 0) \<longrightarrow>
            (\<forall>ev\<in>set (fst (main e opts stdin)). is_write ev))"
proof -
  have one: "main e opts stdin
              = ([Stderr (''MaxDepth should be an integer.'' @ [nl] @ ''Exiting...'' @ [nl])],
                 Exited (- 1))" if "py_int e s = None"
    using assms that by (simp add: main_def)
  have two: "main e opts stdin
              = (handlePrint e (''Illegal maxdepth: range should be >= 0.'' @ [nl] @ ''Exiting..''),
                 Exited (- 2))" if "py_int e s = Some n" "n < 0" for n
    using assms that by (simp add: main_def)
  have three: "\<forall>ev\<in>set (fst (main e opts stdin)). is_write ev"
    if "py_int e s = None \<or> (\<exists>n. py_int e s = Some n \<and> n < 0)"
    using that
  proof
    assume "py_int e s = None"
    then show ?thesis using one by (simp add: is_write_def)
  next
    assume "\<exists>n. py_int e s = Some n \<and> n < 0"
    then obtain n where "py_int e s = Some n" "n < 0" by blast
    then show ?thesis using two [of n] handlePrint_is_write by auto
  qed
  show ?thesis using one two three by blast
qed

theorem main_rejects_bad_maxdepth_witness:
  "main demo_env demo_opts []
     = ([Stderr (''MaxDepth should be an integer.'' @ [nl] @ ''Exiting...'' @ [nl])], Exited (- 1))
   \<and> main demo_env (demo_opts \<lparr> maxdepth := Some ''-1'' \<rparr>) []
     = (handlePrint demo_env (''Illegal maxdepth: range should be >= 0.'' @ [nl] @ ''Exiting..''),
        Exited (- 2))
   \<and> fst (main demo_env (demo_opts \<lparr> maxdepth := Some ''-1'' \<rparr>) [])
     = [Stdout (''Illegal maxdepth: range should be >= 0.'' @ [nl] @ ''Exiting..'' @ [nl])]"
proof -
  have a: "maxdepth demo_opts = Some ''abc''" by (simp add: demo_opts_def)
  have b: "maxdepth (demo_opts \<lparr> maxdepth := Some ''-1'' \<rparr>) = Some ''-1''" by simp
  have p1: "py_int demo_env ''abc'' = None" by code_simp
  have p2: "py_int demo_env ''-1'' = Some (- 1) \<and> (- 1 :: int) < 0" by code_simp
  have p3: "handlePrint demo_env (''Illegal maxdepth: range should be >= 0.'' @ [nl] @ ''Exiting..'')
              = [Stdout (''Illegal maxdepth: range should be >= 0.'' @ [nl] @ ''Exiting..'' @ [nl])]"
    by code_simp
  have m1: "main demo_env demo_opts []
     = ([Stderr (''MaxDepth should be an integer.'' @ [nl] @ ''Exiting...'' @ [nl])], Exited (- 1))"
    using main_rejects_bad_maxdepth [OF a, of demo_env "[]"] p1 by blast
  have m2: "main demo_env (demo_opts \<lparr> maxdepth := Some ''-1'' \<rparr>) []
     = (handlePrint demo_env (''Illegal maxdepth: range should be >= 0.'' @ [nl] @ ''Exiting..''),
        Exited (- 2))"
    using main_rejects_bad_maxdepth [OF b, of demo_env "[]"] p2 by blast
  show ?thesis using m1 m2 p3 by simp
qed

section \<open>Stdin filter: the iteration at the end of the stream\<close>

lemma strip_Nil: "strip c [] = []"
  by (simp add: strip_def)

lemma perLine_evaluated: "evaluated (fst (perLine e rc a v om ck l)) = [strip nl l]"
proof -
  obtain ev1 r1 where m: "matchPatterns e rc (strip nl l) v om ck = (ev1, r1)"
    by (cases "matchPatterns e rc (strip nl l) v om ck")
  obtain ev2 r2 where h: "handleFunctionExecution e a (strip nl l) = (ev2, r2)"
    by (cases "handleFunctionExecution e a (strip nl l)")
  show ?thesis
    using m h matchPatterns_result(2) [OF m] handleFunctionExecution_result(2) [OF h]
    by (cases r1) (simp_all add: perLine_def)
qed

lemma filterStdin_lines:
  assumes "\<forall>l\<in>set ls. l \<noteq> [] \<and> snd (perLine e rc a v om ck l) = None"
  shows "filterStdin e rc a v om ck (map Line ls @ rest) =
           (concat (map (\<lambda>l. fst (perLine e rc a v om ck l)) ls)
              @ fst (filterStdin e rc a v om ck rest),
            snd (filterStdin e rc a v om ck rest))"
  using assms
proof (induction ls)
  case Nil
  show ?case by simp
next
  case (Cons l ls)
  obtain ev1 where p: "perLine e rc a v om ck l = (ev1, None)"
    using Cons.prems by (cases "perLine e rc a v om ck l") auto
  have "l \<noteq> []" "\<forall>l\<in>set ls. l \<noteq> [] \<and> snd (perLine e rc a v om ck l) = None"
    using Cons.prems by simp_all
  then show ?case using Cons.IH p by (simp add: case_prod_beta)
qed

lemma filterStdin_end:
  "filterStdin e rc a v om ck [] =
     (case matchPatterns e rc [] v om ck of
        (ev, Inl x) \<Rightarrow> (ev, Some x)
      | (ev, Inr m) \<Rightarrow>
          if m \<and> a \<noteq> []
          then (ev @ fst (handleFunctionExecution e a []), snd (handleFunctionExecution e a []))
          else (ev, None))"
  "filterStdin e rc a v om ck (Line [] # rest) = filterStdin e rc a v om ck []"
  by (simp_all add: perLine_def strip_Nil case_prod_beta split: sum.splits)

text \<open>
  C10. After any lines that were read and handled without an exception, the read that
  returns the empty string (the stream is used up, or an empty string is read) is still
  followed by one evaluation, whatever the pattern and the action are: the matcher is
  called on the empty string, which is the last text it is given, and, when it reports a
  match and an action is configured, \<open>handleFunctionExecution\<close> is called with the empty
  string as subject. Then the filter returns, whatever could still be read.
\<close>

theorem filterStdin_eof_iteration:
  assumes "\<forall>l\<in>set ls. l \<noteq> [] \<and> snd (perLine e rc a v om ck l) = None"
  shows "filterStdin e rc a v om ck (map Line ls) =
           (case matchPatterns e rc [] v om ck of
              (ev, Inl x) \<Rightarrow>
                (concat (map (\<lambda>l. fst (perLine e rc a v om ck l)) ls) @ ev, Some x)
            | (ev, Inr m) \<Rightarrow>
                if m \<and> a \<noteq> []
                then (concat (map (\<lambda>l. fst (perLine e rc a v om ck l)) ls) @ ev
                        @ fst (handleFunctionExecution e a []),
                      snd (handleFunctionExecution e a []))
                else (concat (map (\<lambda>l. fst (perLine e rc a v om ck l)) ls) @ ev, None))
       \<and> evaluated (fst (filterStdin e rc a v om ck (map Line ls))) = map (strip nl) ls @ [[]]
       \<and> evaluated (fst (matchPatterns e rc [] v om ck)) = [[]]
       \<and> filterStdin e rc a v om ck (map Line ls @ Line [] # rest) =
           filterStdin e rc a v om ck (map Line ls)
       \<and> (snd (matchPatterns e rc [] v om ck) = Inr True \<and> a \<noteq> [] \<longrightarrow>
            filterStdin e rc a v om ck (map Line ls) =
              (concat (map (\<lambda>l. fst (perLine e rc a v om ck l)) ls)
                 @ fst (matchPatterns e rc [] v om ck) @ fst (handleFunctionExecution e a []),
               snd (handleFunctionExecution e a [])))"
proof -
  let ?pre = "concat (map (\<lambda>l. fst (perLine e rc a v om ck l)) ls)"
  obtain ev0 r0 where m: "matchPatterns e rc [] v om ck = (ev0, r0)"
    by (cases "matchPatterns e rc [] v om ck")
  have e0: "evaluated ev0 = [[]]" using matchPatterns_result(2) [OF m] .
  have l0: "filterStdin e rc a v om ck (map Line ls) =
              (?pre @ fst (filterStdin e rc a v om ck []), snd (filterStdin e rc a v om ck []))"
    using filterStdin_lines [OF assms, of "[]"] by simp
  have l1: "filterStdin e rc a v om ck (map Line ls @ Line [] # rest) =
              (?pre @ fst (filterStdin e rc a v om ck []), snd (filterStdin e rc a v om ck []))"
    using filterStdin_lines [OF assms, of "Line [] # rest"] by (simp only: filterStdin_end(2))
  have one: "filterStdin e rc a v om ck (map Line ls) =
           (case matchPatterns e rc [] v om ck of
              (ev, Inl x) \<Rightarrow> (?pre @ ev, Some x)
            | (ev, Inr m) \<Rightarrow>
                if m \<and> a \<noteq> []
                then (?pre @ ev @ fst (handleFunctionExecution e a []),
                      snd (handleFunctionExecution e a []))
                else (?pre @ ev, None))"
    unfolding l0 filterStdin_end(1) m by (cases r0) simp_all
  have pre: "evaluated ?pre = map (strip nl) ls"
    by (induction ls) (simp_all add: perLine_evaluated)
  have "evaluated (fst (filterStdin e rc a v om ck [])) = [[]]"
    unfolding filterStdin_end(1) m using e0 by (cases r0) simp_all
  then have two: "evaluated (fst (filterStdin e rc a v om ck (map Line ls))) = map (strip nl) ls @ [[]]"
    unfolding l0 using pre by simp
  have three: "evaluated (fst (matchPatterns e rc [] v om ck)) = [[]]"
    by simp
  have four: "filterStdin e rc a v om ck (map Line ls @ Line [] # rest) =
                filterStdin e rc a v om ck (map Line ls)"
    unfolding l0 l1 ..
  have five: "filterStdin e rc a v om ck (map Line ls) =
              (?pre @ fst (matchPatterns e rc [] v om ck) @ fst (handleFunctionExecution e a []),
               snd (handleFunctionExecution e a []))"
    if "snd (matchPatterns e rc [] v om ck) = Inr True" "a \<noteq> []"
    using that unfolding one m by simp
  show ?thesis using one two three four five by blast
qed

theorem filterStdin_eof_iteration_witness:
  "filterStdin demo_env whole_subject ''echo {}'' False False RED (map Line [''ab'' @ [nl]])
     = ([Evaluated ''ab'', Spawned [''echo'', ''ab''], Evaluated [], Spawned [''echo'']], None)
   \<and> evaluated (fst (filterStdin demo_env (find_char (CHR ''x'')) [] True False RED
                      (map Line [''ab'' @ [nl]])))
     = map (strip nl) [''ab'' @ [nl]] @ [[]]"
proof -
  have a: "snd (matchPatterns demo_env whole_subject [] False False RED) = Inr True" by code_simp
  have b: "''echo {}'' \<noteq> []" by simp
  have c: "\<forall>l\<in>set [''ab'' @ [nl]].
             l \<noteq> [] \<and> snd (perLine demo_env whole_subject ''echo {}'' False False RED l) = None"
    by code_simp
  have c': "\<forall>l\<in>set [''ab'' @ [nl]].
             l \<noteq> [] \<and> snd (perLine demo_env (find_char (CHR ''x'')) [] True False RED l) = None"
    by code_simp
  have d: "(concat (map (\<lambda>l. fst (perLine demo_env whole_subject ''echo {}'' False False RED l))
                    [''ab'' @ [nl]])
              @ fst (matchPatterns demo_env whole_subject [] False False RED)
              @ fst (handleFunctionExecution demo_env ''echo {}'' []),
            snd (handleFunctionExecution demo_env ''echo {}'' []))
           = ([Evaluated ''ab'', Spawned [''echo'', ''ab''], Evaluated [], Spawned [''echo'']], None)"
    by code_simp
  have w1: "filterStdin demo_env whole_subject ''echo {}'' False False RED (map Line [''ab'' @ [nl]])
     = ([Evaluated ''ab'', Spawned [''echo'', ''ab''], Evaluated [], Spawned [''echo'']], None)"
    using filterStdin_eof_iteration [OF c, of "[]"] a b unfolding d by blast
  have w2: "evaluated (fst (filterStdin demo_env (find_char (CHR ''x'')) [] True False RED
                      (map Line [''ab'' @ [nl]])))
     = map (strip nl) [''ab'' @ [nl]] @ [[]]"
    using filterStdin_eof_iteration [OF c', of "[]"] by blast
  show ?thesis using w1 w2 by blast
qed

section \<open>Compiling the pattern\<close>

lemma sanitize_bare: "sanitize ''*'' = ''*''" "sanitize ''.'' = ''.''"
  by code_simp+

text \<open>
  C4. The sanitizer leaves the patterns \<open>*\<close> and \<open>.\<close> as they are, and sanitizing and
  compiling them yields a compiled pattern whenever \<open>re.compile\<close> accepts \<open>^.*$\<close>: the
  compiled sanitized pattern, or the compiled \<open>^.*$\<close> if \<open>re.compile\<close> rejects the sanitized
  pattern.
\<close>

theorem bare_patterns_compile:
  assumes "re_compile e match_all flags = Inr u" and "r = ''*'' \<or> r = ''.''"
  shows "sanitize r = r
       \<and> (\<exists>c. compile_regex e (sanitize r) flags = Inr c)
       \<and> (\<forall>x. re_compile e (sanitize r) flags = Inl x \<longrightarrow>
            compile_regex e (sanitize r) flags = Inr u)
       \<and> (\<forall>c. re_compile e (sanitize r) flags = Inr c \<longrightarrow>
            compile_regex e (sanitize r) flags = Inr c)"
proof -
  have "sanitize r = r" using assms(2) sanitize_bare by auto
  moreover have "(\<exists>c. compile_regex e r flags = Inr c)
       \<and> (\<forall>x. re_compile e r flags = Inl x \<longrightarrow> compile_regex e r flags = Inr u)
       \<and> (\<forall>c. re_compile e r flags = Inr c \<longrightarrow> compile_regex e r flags = Inr c)"
    using assms(1) by (auto simp: compile_regex_def split: sum.splits)
  ultimately show ?thesis by simp
qed

theorem bare_patterns_compile_witness:
  "compile_regex demo_env (sanitize ''*'') 34 = Inr whole_subject
   \<and> (\<exists>c. compile_regex demo_env (sanitize ''.'') 34 = Inr c)"
proof -
  have a: "re_compile demo_env match_all 34 = Inr whole_subject"
    by (simp add: demo_env_def demo_compile_def match_all_def)
  have b: "re_compile demo_env (sanitize ''*'') 34 = Inl ReError"
    unfolding sanitize_bare by (simp add: demo_env_def demo_compile_def)
  show ?thesis
    using bare_patterns_compile [OF a, of "''*''"] bare_patterns_compile [OF a, of "''.''"] b
    by auto
qed

section \<open>The detector of unsafe asterisks\<close>

lemma rx_at_star_only: "rx_at [Star (In cs)] b s = Some (dropWhile (\<lambda>x. x \<in> set cs) s)"
  by (induction s arbitrary: b) simp_all

lemma rx_at_lead_star:
  "(rx_at [Star (NotIn ''.''), Plus (In ''*'')] b s \<noteq> None)
     = (\<exists>p q. s = p @ CHR ''*'' # q \<and> CHR ''.'' \<notin> set p)"
proof (induction s arbitrary: b)
  case Nil
  show ?case by simp
next
  case (Cons x xs)
  have split: "(\<exists>p q. x # xs = p @ CHR ''*'' # q \<and> CHR ''.'' \<notin> set p)
                 = (x = CHR ''*'' \<or> (x \<noteq> CHR ''.'' \<and> (\<exists>p q. xs = p @ CHR ''*'' # q \<and> CHR ''.'' \<notin> set p)))"
    (is "?L = ?R")
  proof
    assume ?L
    then obtain p q where pq: "x # xs = p @ CHR ''*'' # q" "CHR ''.'' \<notin> set p" by blast
    show ?R
    proof (cases p)
      case Nil
      then show ?thesis using pq by simp
    next
      case (Cons y ys)
      then have "x = y" "xs = ys @ CHR ''*'' # q" "y \<noteq> CHR ''.''" "CHR ''.'' \<notin> set ys"
        using pq by auto
      then show ?thesis by blast
    qed
  next
    assume ?R
    then show ?L
    proof
      assume "x = CHR ''*''"
      then have "x # xs = [] @ CHR ''*'' # xs \<and> CHR ''.'' \<notin> set []" by simp
      then show ?L by blast
    next
      assume "x \<noteq> CHR ''.'' \<and> (\<exists>p q. xs = p @ CHR ''*'' # q \<and> CHR ''.'' \<notin> set p)"
      then obtain p q where "xs = p @ CHR ''*'' # q" "CHR ''.'' \<notin> set p" "x \<noteq> CHR ''.''" by blast
      then have "x # xs = (x # p) @ CHR ''*'' # q \<and> CHR ''.'' \<notin> set (x # p)" by simp
      then show ?L by blast
    qed
  qed
  show ?case
    unfolding split using Cons.IH [of False]
    by (auto simp: rx_at_star_only split: option.splits)
qed

lemma re_match_only_star: "re_match rx_only_star s = (s = ''*'' \<or> s = ''*'' @ [nl])"
  by (cases s) (auto simp: re_match_def rx_only_star_def)

text \<open>
  C5, as the code has it. The detector holds exactly for the patterns that contain a \<open>*\<close>
  with no \<open>.\<close> anywhere before it; the pattern \<open>*\<close> is one of them.
\<close>

theorem unsafeAsteriks_iff:
  "unsafeAsteriks s = (\<exists>p q. s = p @ CHR ''*'' # q \<and> CHR ''.'' \<notin> set p)"
proof -
  have "re_match rx_only_star s \<Longrightarrow> s = [] @ CHR ''*'' # tl s \<and> CHR ''.'' \<notin> set []"
    unfolding re_match_only_star by auto
  then have "re_match rx_only_star s \<Longrightarrow> \<exists>p q. s = p @ CHR ''*'' # q \<and> CHR ''.'' \<notin> set p"
    by blast
  then show ?thesis
    unfolding unsafeAsteriks_def
    using rx_at_lead_star [of True s] by (auto simp: re_match_def rx_lead_star_def)
qed

theorem unsafeAsteriks_iff_witness:
  "unsafeAsteriks ''ab*.c'' \<and> ''ab*.c'' = ''ab'' @ CHR ''*'' # ''.c'' \<and> CHR ''.'' \<notin> set ''ab''"
proof -
  have "''ab*.c'' = ''ab'' @ CHR ''*'' # ''.c'' \<and> CHR ''.'' \<notin> set ''ab''" by simp
  then have "\<exists>p q. ''ab*.c'' = p @ CHR ''*'' # q \<and> CHR ''.'' \<notin> set p" by blast
  then have "unsafeAsteriks ''ab*.c''" unfolding unsafeAsteriks_iff [of "''ab*.c''"] .
  then show ?thesis by simp
qed

text \<open>
  C5 as stated fails on \<open>a.b*\<close>: its run of \<open>*\<close> stands right after \<open>b\<close>, not after a \<open>.\<close>,
  and the detector does not hold, because \<open>re.match\<close> starts at the first character and
  \<open>[^\.]*\<close> cannot pass the \<open>.\<close> before it.
\<close>

theorem unsafeAsteriks_counterexample:
  "spec_unsafe_asterisk ''a.b*'' \<and> \<not> unsafeAsteriks ''a.b*''"
  by code_simp

section \<open>Action dispatcher: the command line\<close>

declare tokens.simps [simp del]

lemma tokens_Nil: "tokens sep [] = []"
  by (subst tokens.simps) simp

lemma tokens_sep: "sep c \<Longrightarrow> tokens sep (c # cs) = tokens sep cs"
  by (subst (1 2) tokens.simps) simp

lemma tokens_word:
  "\<not> sep c \<Longrightarrow>
     tokens sep (c # cs) = (c # takeWhile (\<lambda>x. \<not> sep x) cs) # tokens sep (dropWhile (\<lambda>x. \<not> sep x) cs)"
  by (subst tokens.simps) simp

lemma split_on_unfold:
  "split_on sep s =
     takeWhile (\<lambda>x. x \<noteq> sep) s
       # (case dropWhile (\<lambda>x. x \<noteq> sep) s of [] \<Rightarrow> [] | y # r \<Rightarrow> split_on sep r)"
  by (induction s) (auto split: list.splits)

lemma filter_split_on:
  "filter (\<lambda>item. item \<noteq> []) (split_on sep s) = tokens (\<lambda>c. c = sep) s"
proof (induction s rule: length_induct)
  case (1 s)
  show ?case
  proof (cases s)
    case Nil
    then show ?thesis by (simp add: tokens_Nil)
  next
    case (Cons c cs)
    show ?thesis
    proof (cases "c = sep")
      case True
      have "length cs < length s" using Cons by simp
      then have "filter (\<lambda>item. item \<noteq> []) (split_on sep cs) = tokens (\<lambda>c. c = sep) cs"
        using 1 by blast
      then show ?thesis using Cons True by (simp add: tokens_sep)
    next
      case False
      have u: "split_on sep (c # cs) =
                 (c # takeWhile (\<lambda>x. x \<noteq> sep) cs)
                   # (case dropWhile (\<lambda>x. x \<noteq> sep) cs of [] \<Rightarrow> [] | y # r \<Rightarrow> split_on sep r)"
        using split_on_unfold [of sep "c # cs"] False by simp
      have w: "tokens (\<lambda>c. c = sep) (c # cs) =
                 (c # takeWhile (\<lambda>x. x \<noteq> sep) cs)
                   # tokens (\<lambda>c. c = sep) (dropWhile (\<lambda>x. x \<noteq> sep) cs)"
        using tokens_word [of "\<lambda>c. c = sep" c cs] False by simp
      show ?thesis
      proof (cases "dropWhile (\<lambda>x. x \<noteq> sep) cs")
        case Nil
        show ?thesis unfolding Cons u w Nil by (simp add: tokens_Nil)
      next
        case d: (Cons y r)
        have y: "y = sep" using hd_dropWhile [of "\<lambda>x. x \<noteq> sep" cs] d by simp
        have "length (dropWhile (\<lambda>x. x \<noteq> sep) cs) \<le> length cs" by (rule length_dropWhile_le)
        then have "length r < length s" using d Cons by simp
        then have "filter (\<lambda>item. item \<noteq> []) (split_on sep r) = tokens (\<lambda>c. c = sep) r"
          using 1 by blast
        then show ?thesis unfolding Cons u w d using y by (simp add: tokens_sep)
      qed
    qed
  qed
qed

lemma cmdList_of_tokens: "cmdList_of cmdText = tokens is_space cmdText"
proof -
  have "is_space = (\<lambda>c. c = CHR '' '')" by (rule ext) (simp add: is_space_def)
  then show ?thesis by (simp add: cmdList_of_def filter_split_on)
qed

lemma replace_scan_absent: "\<not> sublist old s \<Longrightarrow> replace_scan old new s = s"
proof (induction s)
  case Nil
  show ?case by simp
next
  case (Cons c cs)
  then show ?case by (simp add: sublist_Cons_right)
qed

lemma replace_scan_first:
  "\<not> sublist ''{}'' pre \<Longrightarrow>
     replace_scan ''{}'' new (pre @ ''{}'' @ post) = pre @ new @ replace_scan ''{}'' new post"
proof (induction pre)
  case Nil
  show ?case by simp
next
  case (Cons c pre)
  have np: "\<not> prefix ''{}'' (c # pre @ ''{}'' @ post)"
  proof
    assume p: "prefix ''{}'' (c # pre @ ''{}'' @ post)"
    show False
    proof (cases pre)
      case Nil
      then show ?thesis using p by simp
    next
      case (Cons d r)
      then have "prefix ''{}'' (c # pre)" using p by simp
      then show ?thesis using Cons.prems by (simp add: sublist_Cons_right)
    qed
  qed
  have step: "replace_scan ''{}'' new (c # (pre @ ''{}'' @ post))
                = c # replace_scan ''{}'' new (pre @ ''{}'' @ post)"
    by (subst replace_scan.simps) (simp only: np simp_thms if_False)
  have "\<not> sublist ''{}'' pre" using Cons.prems by (simp add: sublist_Cons_right)
  then have ih: "replace_scan ''{}'' new (pre @ ''{}'' @ post)
                   = pre @ new @ replace_scan ''{}'' new post"
    using Cons.IH by blast
  have e: "replace_scan ''{}'' new ((c # pre) @ ''{}'' @ post)
             = replace_scan ''{}'' new (c # (pre @ ''{}'' @ post))"
    by simp
  show ?case unfolding e step ih by simp
qed

lemma first_occurrence:
  assumes "x \<noteq> []" and "sublist x a"
  shows "\<exists>pre post. a = pre @ x @ post \<and> \<not> sublist x pre"
  using assms(2)
proof (induction a)
  case Nil
  then show ?case using assms(1) by simp
next
  case (Cons c cs)
  show ?case
  proof (cases "prefix x (c # cs)")
    case True
    then obtain post where "c # cs = [] @ x @ post" by (auto simp: prefix_def)
    moreover have "\<not> sublist x []" using assms(1) by simp
    ultimately show ?thesis by blast
  next
    case False
    then have "sublist x cs" using Cons.prems by (simp add: sublist_Cons_right)
    then obtain pre post where p: "cs = pre @ x @ post" "\<not> sublist x pre"
      using Cons.IH by blast
    have "\<not> prefix x (c # pre)"
    proof
      assume "prefix x (c # pre)"
      then have "prefix x ((c # pre) @ x @ post)" by (rule prefix_prefix)
      then show False using False p(1) by simp
    qed
    then have "\<not> sublist x (c # pre)" using p(2) by (simp add: sublist_Cons_right)
    moreover have "c # cs = (c # pre) @ x @ post" using p(1) by simp
    ultimately show ?thesis by blast
  qed
qed

lemma parts_exist:
  "\<exists>parts. parts \<noteq> [] \<and> (\<forall>p\<in>set parts. \<not> sublist ''{}'' p) \<and> a = join_with ''{}'' parts"
proof (induction a rule: length_induct)
  case (1 a)
  show ?case
  proof (cases "sublist ''{}'' a")
    case False
    then have "[a] \<noteq> [] \<and> (\<forall>p\<in>set [a]. \<not> sublist ''{}'' p) \<and> a = join_with ''{}'' [a]"
      by simp
    then show ?thesis by blast
  next
    case True
    then obtain pre post where p: "a = pre @ ''{}'' @ post" "\<not> sublist ''{}'' pre"
      using first_occurrence [of "''{}''" a] by auto
    then have "length post < length a" by simp
    then obtain parts where q: "parts \<noteq> []" "\<forall>p\<in>set parts. \<not> sublist ''{}'' p"
        "post = join_with ''{}'' parts"
      using 1 by blast
    then obtain r rs where r: "parts = r # rs" by (cases parts) auto
    have "pre # parts \<noteq> [] \<and> (\<forall>p\<in>set (pre # parts). \<not> sublist ''{}'' p)
          \<and> a = join_with ''{}'' (pre # parts)"
      using p q r by simp
    then show ?thesis by blast
  qed
qed

lemma replace_scan_join:
  "parts \<noteq> [] \<Longrightarrow> \<forall>p\<in>set parts. \<not> sublist ''{}'' p \<Longrightarrow>
     replace_scan ''{}'' new (join_with ''{}'' parts) = join_with new parts"
proof (induction "''{}''" parts rule: join_with.induct)
  case 1
  then show ?case by simp
next
  case (2 p)
  then show ?case by (simp add: replace_scan_absent)
next
  case (3 p q ps)
  have "replace_scan ''{}'' new (p @ ''{}'' @ join_with ''{}'' (q # ps))
          = p @ new @ replace_scan ''{}'' new (join_with ''{}'' (q # ps))"
    using "3.prems" by (intro replace_scan_first) simp
  then show ?case using 3 by simp
qed

lemma handleFunctionExecution_dispatch:
  "handleFunctionExecution e a s = spec_dispatch e (str_replace SUB_KEY s a)"
proof (cases "posix e")
  case True
  then show ?thesis
    using handleFunctionExecution_posix [OF True, of a s]
    unfolding cmdList_of_tokens spec_dispatch_def by simp
next
  case False
  then show ?thesis
    by (simp add: handleFunctionExecution_def spec_dispatch_def posix_def Let_def)
qed

text \<open>
  C6, as the code has it. On every host the command line is the template with every \<open>{}\<close>
  replaced by the subject: a template is, in at least one way, a sequence of parts without
  \<open>{}\<close> with \<open>{}\<close> between them, and the command line is the same parts with the subject
  between them. On a host where the action is started with \<open>Popen\<close>, the command line is cut
  at the space character only: the arguments are its maximal runs of characters other than
  a space. On the other hosts the command line is run through the shell.
\<close>

theorem handleFunctionExecution_command_line:
  "handleFunctionExecution e a s = spec_dispatch e (str_replace SUB_KEY s a)
   \<and> (\<exists>parts. parts \<noteq> [] \<and> (\<forall>p\<in>set parts. \<not> sublist SUB_KEY p)
         \<and> a = join_with SUB_KEY parts)
   \<and> (\<forall>parts. parts \<noteq> [] \<and> (\<forall>p\<in>set parts. \<not> sublist SUB_KEY p)
         \<and> a = join_with SUB_KEY parts \<longrightarrow>
         handleFunctionExecution e a s = spec_dispatch e (join_with s parts))"
proof -
  have two: "\<exists>parts. parts \<noteq> [] \<and> (\<forall>p\<in>set parts. \<not> sublist SUB_KEY p)
               \<and> a = join_with SUB_KEY parts"
    using parts_exist [of a] by (simp add: SUB_KEY_def)
  have three: "handleFunctionExecution e a s = spec_dispatch e (join_with s parts)"
    if "parts \<noteq> []" "\<forall>p\<in>set parts. \<not> sublist SUB_KEY p" "a = join_with SUB_KEY parts"
    for parts
  proof -
    have "str_replace SUB_KEY s a = join_with s parts"
      using that replace_scan_join [of parts s] by (simp add: str_replace_def SUB_KEY_def)
    then show ?thesis by (simp add: handleFunctionExecution_dispatch)
  qed
  show ?thesis using handleFunctionExecution_dispatch two three by blast
qed

theorem handleFunctionExecution_command_line_witness:
  "handleFunctionExecution demo_env ''ls -l  {} {}'' ''r/a''
     = ([Spawned [''ls'', ''-l'', ''r/a'', ''r/a'']], None)
   \<and> handleFunctionExecution nt_env ''type {}'' ''f''
     = ([Shell ''type f'', Stdout (''out'' @ [nl])], None)"
proof -
  have p1: "[''ls -l  '', '' '', []] \<noteq> [] \<and> (\<forall>p\<in>set [''ls -l  '', '' '', []]. \<not> sublist SUB_KEY p)
            \<and> ''ls -l  {} {}'' = join_with SUB_KEY [''ls -l  '', '' '', []]"
    by code_simp
  have d1: "spec_dispatch demo_env (join_with ''r/a'' [''ls -l  '', '' '', []])
              = ([Spawned [''ls'', ''-l'', ''r/a'', ''r/a'']], None)"
    by code_simp
  have p2: "[''type '', []] \<noteq> [] \<and> (\<forall>p\<in>set [''type '', []]. \<not> sublist SUB_KEY p)
            \<and> ''type {}'' = join_with SUB_KEY [''type '', []]"
    by code_simp
  have d2: "spec_dispatch nt_env (join_with ''f'' [''type '', []])
              = ([Shell ''type f'', Stdout (''out'' @ [nl])], None)"
    by code_simp
  have w1: "handleFunctionExecution demo_env ''ls -l  {} {}'' ''r/a''
              = spec_dispatch demo_env (join_with ''r/a'' [''ls -l  '', '' '', []])"
    using handleFunctionExecution_command_line [of demo_env "''ls -l  {} {}''" "''r/a''"] p1
    by blast
  have w2: "handleFunctionExecution nt_env ''type {}'' ''f''
              = spec_dispatch nt_env (join_with ''f'' [''type '', []])"
    using handleFunctionExecution_command_line [of nt_env "''type {}''" "''f''"] p2
    by blast
  show ?thesis using w1 w2 unfolding d1 d2 by blast
qed

text \<open>
  C6 as stated fails on a template with a tab: the tab is whitespace, yet the command line
  is not cut there, and the child is started with the single argument \<open>cat<tab>f\<close>.
\<close>

theorem handleFunctionExecution_whitespace_counterexample:
  "handleFunctionExecution demo_env (''cat'' @ [tab] @ ''{}'') ''f''
     = ([Spawned [''cat'' @ [tab] @ ''f'']], None)
   \<and> tokens is_whitespace (str_replace SUB_KEY ''f'' (''cat'' @ [tab] @ ''{}'')) = [''cat'', ''f'']"
  by code_simp

section \<open>The sanitizer on patterns without bare asterisks and dots\<close>

declare rx_sub.simps [simp del]

lemma rx_sub_Nil: "rx_at p b [] = None \<Longrightarrow> rx_sub p repl b [] = []"
  by (subst rx_sub.simps) simp

lemma rx_sub_skip: "rx_at p b (x # xs) = None \<Longrightarrow> rx_sub p repl b (x # xs) = x # rx_sub p repl False xs"
  by (subst rx_sub.simps) simp

lemma rx_sub_hit:
  "rx_at p b s = Some t \<Longrightarrow> length t < length s \<Longrightarrow> rx_sub p repl b s = repl @ rx_sub p repl False t"
  by (subst rx_sub.simps) simp

lemma rx_at_fix_star_short: "rx_at rx_fix_star b [] = None" "rx_at rx_fix_star b [x] = None"
  by (simp_all add: rx_fix_star_def)

lemma rx_at_fix_star:
  "rx_at rx_fix_star b (x # y # r) =
     (if (x = CHR ''*'' \<or> x = CHR ''^'' \<or> x = CHR ''.'') \<and> y = CHR ''*''
      then Some (dropWhile (\<lambda>c. c = CHR ''*'') r) else None)"
  by (auto simp: rx_fix_star_def rx_at_star_only)

lemma rx_at_fix_dot_short: "rx_at rx_fix_dot b [] = None" "rx_at rx_fix_dot b [x] = None"
  by (simp_all add: rx_fix_dot_def)

lemma rx_at_fix_dot:
  "rx_at rx_fix_dot b (x # y # r) =
     (if (x = CHR ''.'' \<or> x = CHR ''*'' \<or> x = CHR ''^'') \<and> y = CHR ''.''
      then Some (dropWhile (\<lambda>c. c = CHR ''.'') r) else None)"
  by (auto simp: rx_fix_dot_def rx_at_star_only)

lemma stars_guarded_after_star:
  "stars_guarded (Some (CHR ''*'')) r \<Longrightarrow> dropWhile (\<lambda>c. c = CHR ''*'') r = r"
  by (cases r) (auto simp: bslash_def)

lemma rx_sub_fix_star_id:
  "stars_guarded prev s \<Longrightarrow> rx_sub rx_fix_star ''.*'' b s = s"
proof (induction s arbitrary: prev b rule: length_induct)
  case (1 s)
  have ih: "rx_sub rx_fix_star ''.*'' c t = t"
    if "length t < length s" "stars_guarded q t" for t q c
    using 1(1) that by blast
  show ?case
  proof (cases s)
    case Nil
    then show ?thesis by (simp add: rx_sub_Nil rx_at_fix_star_short)
  next
    case (Cons x xs)
    have g: "stars_guarded (Some x) xs" using 1(2) Cons by simp
    have tail: "rx_sub rx_fix_star ''.*'' False xs = xs"
      using ih [OF _ g] Cons by simp
    show ?thesis
    proof (cases xs)
      case Nil
      then show ?thesis using Cons by (simp add: rx_sub_skip rx_sub_Nil rx_at_fix_star_short)
    next
      case xs: (Cons y r)
      show ?thesis
      proof (cases "(x = CHR ''*'' \<or> x = CHR ''^'' \<or> x = CHR ''.'') \<and> y = CHR ''*''")
        case False
        then have "rx_at rx_fix_star b (x # y # r) = None" by (simp add: rx_at_fix_star)
        then show ?thesis using Cons xs tail by (simp add: rx_sub_skip)
      next
        case True
        have x: "x = CHR ''.''" using True g xs by (auto simp: bslash_def)
        have gr: "stars_guarded (Some (CHR ''*'')) r" using g xs True by simp
        have m: "rx_at rx_fix_star b (x # y # r) = Some r"
          using True stars_guarded_after_star [OF gr] by (simp add: rx_at_fix_star)
        have "rx_sub rx_fix_star ''.*'' False r = r"
          using ih [OF _ gr] Cons xs by simp
        then have "rx_sub rx_fix_star ''.*'' b (x # y # r) = ''.*'' @ r"
          using rx_sub_hit [OF m, of "''.*''"] by simp
        then show ?thesis using Cons xs x True by simp
      qed
    qed
  qed
qed

lemma rx_sub_fix_dot_id:
  "dots_apart prev s \<Longrightarrow> rx_sub rx_fix_dot repl b s = s"
proof (induction s arbitrary: prev b)
  case Nil
  show ?case by (simp add: rx_sub_Nil rx_at_fix_dot_short)
next
  case (Cons x xs)
  have g: "dots_apart (Some x) xs" using Cons.prems by simp
  have "rx_at rx_fix_dot b (x # xs) = None"
    using g by (cases xs) (auto simp: rx_at_fix_dot_short rx_at_fix_dot)
  then show ?case using Cons.IH [OF g] by (simp add: rx_sub_skip)
qed

lemma rx_search_Bol: "\<not> rx_search (Bol # r) False s"
  by (induction s) simp_all

lemma re_search_canonical: "re_search rx_canonical s = (s = ''.*'' \<or> s = ''.*'' @ [nl])"
proof (cases s)
  case Nil
  then show ?thesis by (simp add: re_search_def rx_canonical_def)
next
  case (Cons x xs)
  show ?thesis
  proof (cases xs)
    case Nil
    then show ?thesis using Cons by (simp add: re_search_def rx_canonical_def rx_search_Bol)
  next
    case (Cons y r)
    then show ?thesis using \<open>s = x # xs\<close>
      by (auto simp: re_search_def rx_canonical_def rx_search_Bol)
  qed
qed

lemma rx_at_Star_total:
  assumes "\<And>b s. rx_at r b s \<noteq> None"
  shows "rx_at (Star c # r) b s \<noteq> None"
proof (induction s arbitrary: b)
  case Nil
  show ?case using assms [of b "[]"] by simp
next
  case (Cons x xs)
  show ?case using assms [of b "x # xs"] Cons [of False] by (auto split: option.splits)
qed

lemma unsafeDots_iff:
  "unsafeDots s = (s = ''.'' \<or> s = ''.'' @ [nl] \<or> (\<exists>x r. s = x # CHR ''.'' # r \<and> x \<noteq> bslash))"
proof -
  have tot: "rx_at [Star (In ''.''), Star (NotIn ''*'')] b t \<noteq> None" for b t
    by (intro rx_at_Star_total) simp_all
  have only: "re_match rx_only_dot s = (s = ''.'' \<or> s = ''.'' @ [nl])"
    by (cases s) (auto simp: re_match_def rx_only_dot_def)
  have lead: "re_match rx_lead_dot s = (\<exists>x r. s = x # CHR ''.'' # r \<and> x \<noteq> bslash)"
  proof (cases s)
    case Nil
    then show ?thesis by (simp add: re_match_def rx_lead_dot_def)
  next
    case (Cons x xs)
    then show ?thesis using tot
      by (cases xs) (auto simp: re_match_def rx_lead_dot_def)
  qed
  show ?thesis unfolding unsafeDots_def only lead by blast
qed

lemma rx_sub_fix_dot_changes:
  "rx_sub rx_fix_dot dot_replacement b s = s \<Longrightarrow> dots_apart None s"
proof (induction s arbitrary: b)
  case Nil
  show ?case by simp
next
  case (Cons x xs)
  show ?case
  proof (cases xs)
    case Nil
    then show ?thesis by simp
  next
    case xs: (Cons y r)
    show ?thesis
    proof (cases "(x = CHR ''.'' \<or> x = CHR ''*'' \<or> x = CHR ''^'') \<and> y = CHR ''.''")
      case True
      have m: "rx_at rx_fix_dot b (x # y # r) = Some (dropWhile (\<lambda>c. c = CHR ''.'') r)"
        using True by (simp add: rx_at_fix_dot)
      have "length (dropWhile (\<lambda>c. c = CHR ''.'') r) \<le> length r" by (rule length_dropWhile_le)
      then have "length (dropWhile (\<lambda>c. c = CHR ''.'') r) < length (x # y # r)" by simp
      then have "rx_sub rx_fix_dot dot_replacement b (x # y # r)
                   = dot_replacement @ rx_sub rx_fix_dot dot_replacement False
                                         (dropWhile (\<lambda>c. c = CHR ''.'') r)"
        by (rule rx_sub_hit [OF m])
      then have "False" using Cons.prems xs True by (simp add: dot_replacement_def bslash_def)
      then show ?thesis ..
    next
      case False
      then have "rx_at rx_fix_dot b (x # y # r) = None" by (simp add: rx_at_fix_dot)
      then have "rx_sub rx_fix_dot dot_replacement False xs = xs"
        using Cons.prems xs by (simp add: rx_sub_skip)
      then have "dots_apart None xs" by (rule Cons.IH)
      then show ?thesis using xs False by auto
    qed
  qed
qed

lemma sanitize_steps:
  assumes "stars_guarded None s" and "s \<noteq> ''.*''" and "s \<noteq> ''.*'' @ [nl]"
  shows "sanitize s = (if unsafeDots s then re_sub rx_fix_dot dot_replacement s else s)"
proof -
  have c: "\<not> re_search rx_canonical s" using assms(2,3) by (simp add: re_search_canonical)
  have a: "re_sub rx_fix_star ''.*'' s = s"
    using rx_sub_fix_star_id [OF assms(1)] by (simp add: re_sub_def)
  show ?thesis using c a by (simp add: sanitize_def Let_def)
qed

lemma sanitize_unchanged:
  assumes "stars_guarded None s" and "\<not> unsafeDots s \<or> dots_apart None s"
      and "s \<noteq> ''.*''" and "s \<noteq> ''.*'' @ [nl]"
  shows "sanitize s = s"
proof -
  have "dots_apart None s \<Longrightarrow> re_sub rx_fix_dot dot_replacement s = s"
    using rx_sub_fix_dot_id [of None s] by (simp add: re_sub_def)
  then show ?thesis
    using assms(2) unfolding sanitize_steps [OF assms(1,3,4)] by auto
qed

lemma sanitize_changed:
  assumes "stars_guarded None s" and "unsafeDots s" and "\<not> dots_apart None s"
      and "s \<noteq> ''.*''" and "s \<noteq> ''.*'' @ [nl]"
  shows "sanitize s \<noteq> s"
  using assms(2,3) rx_sub_fix_dot_changes [of True s]
  unfolding sanitize_steps [OF assms(1,4,5)] by (auto simp: re_sub_def)

text \<open>
  C3, as the code has it. The sanitizer returns a pattern unchanged if the pattern has no
  bare \<open>*\<close> (every \<open>*\<close> stands right after a \<open>.\<close> or a backslash) and no bare \<open>.\<close> (every
  \<open>.\<close> stands right after a backslash or right before a \<open>*\<close>), is not \<open>.*\<close> itself (with or
  without a final newline), which is rewritten on purpose, and either the test for unsafe
  dots does not hold for it or it has no \<open>.\<close> right after a \<open>.\<close>, a \<open>*\<close> or a \<open>^\<close>.
\<close>

theorem sanitize_identity:
  assumes "no_bare_star s" and "no_bare_dot s"
      and "\<not> unsafeDots s \<or> dots_apart None s"
      and "s \<noteq> ''.*''" and "s \<noteq> ''.*'' @ [nl]"
  shows "sanitize s = s"
  using assms(1,3,4,5) by (simp add: sanitize_unchanged no_bare_star_def)

theorem sanitize_identity_witness:
  "sanitize ''a.*b'' = ''a.*b'' \<and> sanitize ''ab.*.*'' = ''ab.*.*''
   \<and> sanitize [bslash, CHR ''.'', CHR ''.'', CHR ''*''] = [bslash, CHR ''.'', CHR ''.'', CHR ''*'']
   \<and> sanitize ''xy^.*'' = ''xy^.*''"
proof -
  have h1: "no_bare_star ''a.*b''" "no_bare_dot ''a.*b''"
           "\<not> unsafeDots ''a.*b'' \<or> dots_apart None ''a.*b''"
    by code_simp+
  have n1: "''a.*b'' \<noteq> ''.*''" "''a.*b'' \<noteq> ''.*'' @ [nl]" by simp_all
  have h2: "no_bare_star ''ab.*.*''" "no_bare_dot ''ab.*.*''"
           "\<not> unsafeDots ''ab.*.*'' \<or> dots_apart None ''ab.*.*''"
    by code_simp+
  have n2: "''ab.*.*'' \<noteq> ''.*''" "''ab.*.*'' \<noteq> ''.*'' @ [nl]" by simp_all
  have h3: "no_bare_star [bslash, CHR ''.'', CHR ''.'', CHR ''*'']"
           "no_bare_dot [bslash, CHR ''.'', CHR ''.'', CHR ''*'']"
           "\<not> unsafeDots [bslash, CHR ''.'', CHR ''.'', CHR ''*'']
            \<or> dots_apart None [bslash, CHR ''.'', CHR ''.'', CHR ''*'']"
    by code_simp+
  have n3: "[bslash, CHR ''.'', CHR ''.'', CHR ''*''] \<noteq> ''.*''"
           "[bslash, CHR ''.'', CHR ''.'', CHR ''*''] \<noteq> ''.*'' @ [nl]"
    by (simp_all add: bslash_def)
  have h4: "no_bare_star ''xy^.*''" "no_bare_dot ''xy^.*''"
           "\<not> unsafeDots ''xy^.*'' \<or> dots_apart None ''xy^.*''"
    by code_simp+
  have n4: "''xy^.*'' \<noteq> ''.*''" "''xy^.*'' \<noteq> ''.*'' @ [nl]" by simp_all
  show ?thesis
    using sanitize_identity [OF h1 n1] sanitize_identity [OF h2 n2]
          sanitize_identity [OF h3 n3] sanitize_identity [OF h4 n4]
    by blast
qed

text \<open>
  C3 as stated fails. The pattern \<open>a.*.*\<close> has no bare \<open>*\<close> and no bare \<open>.\<close>, and the
  sanitizer turns it into \<open>a.^\.\*$*\<close>; the pattern \<open>.*\<close> has none either, and the
  sanitizer turns it into \<open>^\.\*$*$\<close>.
\<close>

theorem sanitize_identity_counterexample:
  "no_bare_star ''a.*.*'' \<and> no_bare_dot ''a.*.*''
   \<and> sanitize ''a.*.*'' = ''a.'' @ dot_replacement @ ''*''
   \<and> sanitize ''a.*.*'' \<noteq> ''a.*.*''
   \<and> no_bare_star ''.*'' \<and> no_bare_dot ''.*''
   \<and> sanitize ''.*'' = dot_replacement @ ''*$''
   \<and> sanitize ''.*'' \<noteq> ''.*''"
  by code_simp

end
